theory Spec2Isabelle
  imports Main "HOL-Library.AList" "HOL-Library.Char_ord" "HOL-Library.List_Lexorder"
begin

section \<open>Keyword deduplication for image metadata: the model\<close>

text \<open>
  The program (\<^verbatim>\<open>key-dedupe.py\<close>) reads the keyword fields of every file under a
  directory, singularises the keywords, groups synonyms, picks the most frequent member
  of each group as its canonical form and rewrites the files whose keyword set changed.

  Conventions of the model.
  \<^item> A Python \<^verbatim>\<open>str\<close> is a \<open>string\<close>, the list of the bytes of its UTF-8 encoding.
    \<^verbatim>\<open>str.lower\<close>, the Unicode lowercasing of the Python runtime, is a parameter.
  \<^item> A Python \<^verbatim>\<open>set\<close> is a HOL set. Python does not fix the order in which a set is
    iterated, so wherever the program iterates a set and the order can be observed the
    model asks the parameter \<open>iter_order\<close> for it, as a function of the elements of
    the set. Loops that only build a set from a set are written as images and unions.
  \<^item> A \<^verbatim>\<open>dict\<close> that is iterated (the \<^verbatim>\<open>Counter\<close>, the per-file maps) is an
    association list in insertion order; \<^verbatim>\<open>synonym_groups\<close>, which is only looked
    up, is a map.
  \<^item> What the program calls without defining it is a parameter, collected in the record
    \<open>services\<close>: \<^verbatim>\<open>str.lower\<close>, \<^verbatim>\<open>inflect\<close>'s \<^verbatim>\<open>singular_noun\<close>, WordNet's synsets
    with their lemma names, and ExifTool's \<^verbatim>\<open>get_metadata\<close> and \<^verbatim>\<open>set_tags\<close>.
  \<^item> An exception is a value of type \<open>exn\<close>; a call that may raise returns \<open>exn + 'a\<close>.
\<close>

subsection \<open>Values, exceptions and services\<close>

datatype exn = ExifToolError string | IndexError | AttributeError

fun str_exn :: "exn \<Rightarrow> string" where
  "str_exn (ExifToolError msg) = msg"
| "str_exn IndexError = ''list index out of range''"
| "str_exn AttributeError =
     CHR 0x27 # ''int'' @ CHR 0x27 # '' object has no attribute '' @ CHR 0x27 # ''lower'' @ [CHR 0x27]"

text \<open>
  A metadata value as the JSON decoder delivers it: a text or a number, alone or in a
  list. ExifTool prints a keyword that looks like a number as a number.
\<close>

datatype atom = is_Str: Str (un_Str: string) | Num int

datatype mvalue = Scalar atom | ListV "atom list"

type_synonym metadata = "string \<rightharpoonup> mvalue"

type_synonym tags = "(string \<times> string list) list"

record services =
  lower :: "string \<Rightarrow> string"
  singular_noun :: "string \<Rightarrow> string option"
  synsets :: "string \<Rightarrow> string list list"
  iter_order :: "string set \<Rightarrow> string list"
  get_metadata :: "string \<Rightarrow> exn + metadata list"
  set_tags :: "string \<Rightarrow> tags \<Rightarrow> string list \<Rightarrow> exn option"

text \<open>
  \<open>lower sv s\<close> is \<^verbatim>\<open>s.lower()\<close>;
  \<open>singular_noun sv w\<close> is \<open>None\<close> where \<^verbatim>\<open>inflect\<close> returns \<^verbatim>\<open>False\<close>;
  \<open>synsets sv w\<close> lists, for each synset of \<open>w\<close>, the names of its lemmas;
  \<open>set_tags sv path tags params\<close> is \<open>Some e\<close> where the write raises \<open>e\<close>.
  What Python promises of the iteration of a finite set is that it yields every element
  once:
\<close>

definition enumerates :: "(string set \<Rightarrow> string list) \<Rightarrow> bool" where
  "enumerates it \<longleftrightarrow> (\<forall>S. finite S \<longrightarrow> set (it S) = S \<and> distinct (it S))"

subsection \<open>Strings\<close>

text \<open>\<^verbatim>\<open>s.replace('_', ' ')\<close>: the underscore is one byte, and no part of another character.\<close>

definition replace_underscore :: "string \<Rightarrow> string" where
  "replace_underscore s = map (\<lambda>c. if c = CHR ''_'' then CHR '' '' else c) s"

subsection \<open>The constants and the three helpers\<close>

definition METADATA_FIELDS :: "string list" where
  "METADATA_FIELDS = [''XMP:Subject'', ''IPTC:Keywords'', ''MWG:Keywords'', ''Keywords'']"

text \<open>\<^verbatim>\<open>singular if singular else word\<close>: \<^verbatim>\<open>False\<close> and the empty string are both falsy.\<close>

definition handle_plurals :: "services \<Rightarrow> string \<Rightarrow> string" where
  "handle_plurals sv word =
     (case singular_noun sv word of
        None \<Rightarrow> word
      | Some singular \<Rightarrow> if singular \<noteq> [] then singular else word)"

definition get_synonyms :: "services \<Rightarrow> string \<Rightarrow> string set" where
  "get_synonyms sv word =
     fold (\<lambda>syn synonyms.
             fold (\<lambda>lemma_name acc. insert (replace_underscore (lower sv lemma_name)) acc)
                  syn synonyms)
          (synsets sv word) {}"

fun truthy :: "atom \<Rightarrow> bool" where
  "truthy (Str s) = (s \<noteq> [])"
| "truthy (Num n) = (n \<noteq> 0)"

text \<open>The loop over \<^verbatim>\<open>METADATA_FIELDS\<close> that merges the values of the fields present.\<close>

definition merge_field :: "metadata \<Rightarrow> string \<Rightarrow> atom set \<Rightarrow> atom set" where
  "merge_field md field keywords =
     (case md field of
        None \<Rightarrow> keywords
      | Some (ListV vs) \<Rightarrow> keywords \<union> set vs
      | Some (Scalar v) \<Rightarrow> insert v keywords)"

text \<open>
  The comprehension \<^verbatim>\<open>{keyword.lower() for keyword in keywords if keyword}\<close>: a
  number that is not zero passes the filter and has no \<^verbatim>\<open>lower\<close>.
\<close>

definition lower_all :: "services \<Rightarrow> atom set \<Rightarrow> exn + string set" where
  "lower_all sv A =
     (if \<forall>a\<in>A. is_Str a then Inr ((\<lambda>a. lower sv (un_Str a)) ` A) else Inl AttributeError)"

definition extract_keywords :: "services \<Rightarrow> string \<Rightarrow> exn + string set" where
  "extract_keywords sv file_path =
     (case get_metadata sv file_path of
        Inl e \<Rightarrow> Inl e
      | Inr [] \<Rightarrow> Inl IndexError
      | Inr (md # _) \<Rightarrow>
          lower_all sv {keyword \<in> fold (merge_field md) METADATA_FIELDS {}. truthy keyword})"

subsection \<open>The frequency table\<close>

text \<open>
  \<^verbatim>\<open>Counter(xs)\<close>: a dict from each element to the number of its occurrences, its keys
  in the order of their first occurrence; a missing key counts 0.
\<close>

type_synonym counter = "(string \<times> nat) list"

fun counter_add :: "string \<Rightarrow> counter \<Rightarrow> counter" where
  "counter_add x [] = [(x, 1)]"
| "counter_add x ((k, n) # c) = (if k = x then (k, Suc n) # c else (k, n) # counter_add x c)"

definition Counter :: "string list \<Rightarrow> counter" where
  "Counter xs = fold counter_add xs []"

definition keys :: "counter \<Rightarrow> string list" where
  "keys c = map fst c"

definition count_of :: "counter \<Rightarrow> string \<Rightarrow> nat" where
  "count_of c x = (case map_of c x of None \<Rightarrow> 0 | Some n \<Rightarrow> n)"

subsection \<open>Synonym groups\<close>

text \<open>
  \<^verbatim>\<open>max(group, key=...)\<close> on the list \<open>first # others\<close>, which is never empty: the
  first element with the greatest key.
\<close>

fun max_from :: "('a \<Rightarrow> nat) \<Rightarrow> 'a \<Rightarrow> 'a list \<Rightarrow> 'a" where
  "max_from key best [] = best"
| "max_from key best (x # xs) = max_from key (if key best < key x then x else best) xs"

definition group_of :: "services \<Rightarrow> counter \<Rightarrow> string \<Rightarrow> string list" where
  "group_of sv keyword_freq keyword =
     keyword # [syn \<leftarrow> iter_order sv (get_synonyms sv keyword). syn \<in> set (keys keyword_freq)]"

definition main_of :: "services \<Rightarrow> counter \<Rightarrow> string \<Rightarrow> string" where
  "main_of sv keyword_freq keyword =
     max_from (count_of keyword_freq) keyword
       [syn \<leftarrow> iter_order sv (get_synonyms sv keyword). syn \<in> set (keys keyword_freq)]"

text \<open>The body of the loop over the keys of the frequency table.\<close>

definition group_step ::
  "services \<Rightarrow> counter \<Rightarrow> string \<Rightarrow> (string \<rightharpoonup> string) \<Rightarrow> (string \<rightharpoonup> string)" where
  "group_step sv keyword_freq keyword synonym_groups =
     (if synonym_groups keyword = None
      then fold (\<lambda>syn sg. sg(syn \<mapsto> main_of sv keyword_freq keyword))
                (group_of sv keyword_freq keyword) synonym_groups
      else synonym_groups)"

definition process_keywords ::
  "services \<Rightarrow> string list \<Rightarrow> counter \<times> (string \<rightharpoonup> string)" where
  "process_keywords sv all_keywords =
     (let singular_keywords = map (\<lambda>keyword. handle_plurals sv (lower sv keyword)) all_keywords;
          keyword_freq = Counter singular_keywords;
          synonym_groups = fold (group_step sv keyword_freq) (keys keyword_freq) Map.empty
      in (keyword_freq, synonym_groups))"

text \<open>
  The keywords that start a group, in the order in which the loop reaches them: a
  trace of the loop, used to speak about the groups it forms.
\<close>

fun triggers ::
  "services \<Rightarrow> counter \<Rightarrow> string list \<Rightarrow> (string \<rightharpoonup> string) \<Rightarrow> string list" where
  "triggers sv keyword_freq [] synonym_groups = []"
| "triggers sv keyword_freq (keyword # rest) synonym_groups =
     (if synonym_groups keyword = None
      then keyword # triggers sv keyword_freq rest (group_step sv keyword_freq keyword synonym_groups)
      else triggers sv keyword_freq rest synonym_groups)"

definition formed_triggers :: "services \<Rightarrow> string list \<Rightarrow> string list" where
  "formed_triggers sv all_keywords =
     (let keyword_freq = fst (process_keywords sv all_keywords)
      in triggers sv keyword_freq (keys keyword_freq) Map.empty)"

subsection \<open>Canonicalising one file's keywords\<close>

definition update_image_keywords ::
  "services \<Rightarrow> string set \<Rightarrow> (string \<rightharpoonup> string) \<Rightarrow> string set" where
  "update_image_keywords sv keywords synonym_groups =
     (\<lambda>keyword.
        let singular = handle_plurals sv (lower sv keyword)
        in case synonym_groups singular of Some main_keyword \<Rightarrow> main_keyword | None \<Rightarrow> singular)
     ` keywords"

subsection \<open>Collecting and rewriting\<close>

record collected =
  file_keywords :: "(string \<times> string set) list"
  all_keywords :: "string list"
  printed :: "string list"

definition collect_step :: "services \<Rightarrow> string \<Rightarrow> collected \<Rightarrow> collected" where
  "collect_step sv file_path st =
     (case extract_keywords sv file_path of
        Inr keywords \<Rightarrow>
          st\<lparr>all_keywords := all_keywords st @ iter_order sv keywords,
             file_keywords := AList.update file_path keywords (file_keywords st)\<rparr>
      | Inl e \<Rightarrow>
          st\<lparr>printed := printed st @ [''Error processing '' @ file_path @ '': '' @ str_exn e]\<rparr>)"

definition collect :: "services \<Rightarrow> string list \<Rightarrow> collected" where
  "collect sv files =
     fold (collect_step sv) files \<lparr>file_keywords = [], all_keywords = [], printed = []\<rparr>"

definition changed_step ::
  "services \<Rightarrow> (string \<rightharpoonup> string) \<Rightarrow> string \<times> string set \<Rightarrow>
     (string \<times> string set) list \<Rightarrow> (string \<times> string set) list" where
  "changed_step sv synonym_groups item updated_file_keywords =
     (let updated_keywords = update_image_keywords sv (snd item) synonym_groups
      in if updated_keywords \<noteq> snd item
         then AList.update (fst item) updated_keywords updated_file_keywords
         else updated_file_keywords)"

text \<open>
  \<open>files\<close> is the list of the paths that \<^verbatim>\<open>os.walk\<close> yields, in its order. The
  result is \<^verbatim>\<open>updated_file_keywords\<close> together with the lines printed.
\<close>

definition process_directory ::
  "services \<Rightarrow> string list \<Rightarrow> (string \<times> string set) list \<times> string list" where
  "process_directory sv files =
     (let st = collect sv files;
          synonym_groups = snd (process_keywords sv (all_keywords st))
      in (fold (changed_step sv synonym_groups) (file_keywords st) [], printed st))"

text \<open>A write request: the path, the tags and the parameters given to \<^verbatim>\<open>set_tags\<close>.\<close>

type_synonym request = "string \<times> tags \<times> string list"

definition write_request :: "services \<Rightarrow> string \<times> string set \<Rightarrow> request" where
  "write_request sv item =
     (let keyword_list = iter_order sv (snd item)
      in (fst item,
          [(''XMP:Subject'', []), (''IPTC:Keywords'', []),
           (''MWG:Keywords'', keyword_list), (''Keywords'', [])],
          [''-P'', ''-overwrite_original'']))"

definition write_step ::
  "services \<Rightarrow> string \<times> string set \<Rightarrow> request list \<times> string list \<Rightarrow>
     request list \<times> string list" where
  "write_step sv item acc =
     (let req = write_request sv item
      in (fst acc @ [req],
          (case set_tags sv (fst req) (fst (snd req)) (snd (snd req)) of
             None \<Rightarrow> snd acc
           | Some e \<Rightarrow>
               snd acc @ [''Error updating metadata for '' @ fst item @ '': '' @ str_exn e])))"

text \<open>The result is the list of the writes attempted and the lines printed.\<close>

definition update_metadata ::
  "services \<Rightarrow> (string \<times> string set) list \<Rightarrow> request list \<times> string list" where
  "update_metadata sv updated_file_keywords = fold (write_step sv) updated_file_keywords ([], [])"

subsection \<open>Notions used to state the properties\<close>

text \<open>
  What the specification calls merging the tracked fields: every element of a
  list-valued field, and a scalar value as one element.
\<close>

definition merged_values :: "metadata \<Rightarrow> atom set" where
  "merged_values md =
     (\<Union>field\<in>set METADATA_FIELDS.
        case md field of None \<Rightarrow> {} | Some (ListV vs) \<Rightarrow> set vs | Some (Scalar v) \<Rightarrow> {v})"

text \<open>
  A keyword of the frequency table is isolated when none of its synonyms is another key
  of the table and it is a synonym of no other key of the table.
\<close>

definition isolated :: "services \<Rightarrow> counter \<Rightarrow> string \<Rightarrow> bool" where
  "isolated sv keyword_freq k \<longleftrightarrow>
     (\<forall>s\<in>get_synonyms sv k. s \<in> set (keys keyword_freq) \<longrightarrow> s = k) \<and>
     (\<forall>k'\<in>set (keys keyword_freq). k' \<noteq> k \<longrightarrow> k \<notin> get_synonyms sv k')"

text \<open>
  The invariant of the collecting loop: the paths recorded are distinct and each is
  recorded with the set its extraction returned.
\<close>

definition collected_ok :: "services \<Rightarrow> collected \<Rightarrow> bool" where
  "collected_ok sv st \<longleftrightarrow>
     distinct (map fst (file_keywords st)) \<and>
     (\<forall>(p, S)\<in>set (file_keywords st). extract_keywords sv p = Inr S)"

subsection \<open>The groups formed, and a small corpus\<close>

text \<open>
  \<open>last_group sv keyword_freq ts x\<close> is the keyword that started the last of the groups
  started by the keywords \<open>ts\<close>, in this order, that has \<open>x\<close> as a member.
\<close>

fun last_group :: "services \<Rightarrow> counter \<Rightarrow> string list \<Rightarrow> string \<Rightarrow> string option" where
  "last_group sv keyword_freq [] x = None"
| "last_group sv keyword_freq (t # ts) x =
     (case last_group sv keyword_freq ts x of
        Some t' \<Rightarrow> Some t'
      | None \<Rightarrow> if x \<in> set (group_of sv keyword_freq t) then Some t else None)"

text \<open>
  An example installation. Lowercasing is that of the ASCII letters, which is what
  \<^verbatim>\<open>str.lower\<close> does on ASCII text. \<open>cats\<close> and \<open>dogs\<close> are the only plurals. In the
  dictionary \<open>picture\<close> is a synonym of both \<open>photo\<close> and \<open>film\<close>, which are not
  synonyms of each other, and \<open>dog\<close> has the synonyms \<open>puppy\<close> and \<open>domestic dog\<close>,
  while a lookup of \<open>puppy\<close> or of \<open>domestic dog\<close> (written with a space) does not
  return \<open>dog\<close>. Sets are iterated in alphabetical order. ExifTool reads four
  images with keywords, fails on a text file, and delivers a number as the only keyword
  of the image \<open>d/n.jpg\<close>; the example directory holds the first five of these files.
\<close>

definition ascii_lower_char :: "char \<Rightarrow> char" where
  "ascii_lower_char c =
     (if CHR ''A'' \<le> c \<and> c \<le> CHR ''Z'' then char_of (of_char c + (32::nat)) else c)"

definition ascii_lower :: "string \<Rightarrow> string" where
  "ascii_lower s = map ascii_lower_char s"

definition ex_singular_noun :: "string \<Rightarrow> string option" where
  "ex_singular_noun w =
     (if w = ''cats'' then Some ''cat'' else if w = ''dogs'' then Some ''dog'' else None)"

definition ex_synsets :: "string \<Rightarrow> string list list" where
  "ex_synsets w =
     (if w = ''photo'' then [[''photo'', ''picture'']]
      else if w = ''film'' then [[''film'', ''picture'', ''moving_picture'']]
      else if w = ''picture'' then [[''picture'', ''photo''], [''picture'', ''film'']]
      else if w = ''dog'' then [[''dog'', ''domestic_dog'', ''Canis_familiaris''], [''puppy'']]
      else if w = ''cat'' then [[''cat'', ''true_cat'']]
      else if w = ''puppy'' then [[''puppy'', ''pup'']]
      else [])"

definition ex_get_metadata :: "string \<Rightarrow> exn + metadata list" where
  "ex_get_metadata path =
     (if path = ''d/a.jpg'' then
        Inr [[''XMP:Subject'' \<mapsto> ListV [Str ''Cats'', Str ''dog''],
              ''Keywords'' \<mapsto> Scalar (Str ''dog'')]]
      else if path = ''d/b.jpg'' then Inr [[''Keywords'' \<mapsto> Scalar (Str ''cat'')]]
      else if path = ''d/c.jpg'' then
        Inr [[''IPTC:Keywords'' \<mapsto> ListV [Str ''dogs'', Str ''puppy'', Str []],
              ''MWG:Keywords'' \<mapsto> ListV [Num 0]]]
      else if path = ''d/w.jpg'' then Inr [[''XMP:Subject'' \<mapsto> Scalar (Str ''whale'')]]
      else if path = ''d/n.jpg'' then Inr [[''Keywords'' \<mapsto> Scalar (Num 2020)]]
      else if path = ''d/notes.txt''
        then Inl (ExifToolError ''execute returned a non-zero exit status: 1'')
      else Inr [])"

definition ex_sv :: services where
  "ex_sv = \<lparr>lower = ascii_lower, singular_noun = ex_singular_noun, synsets = ex_synsets,
            iter_order = sorted_list_of_set,
            get_metadata = ex_get_metadata, set_tags = (\<lambda>p t ps. None)\<rparr>"

definition ex_corpus :: "string list" where
  "ex_corpus = [''photo'', ''picture'', ''picture'', ''film'', ''film'', ''film'']"

definition ex_overlap :: "string list" where
  "ex_overlap = [''photo'', ''photo'', ''photo'', ''picture'', ''film'', ''film'', ''film'']"

definition ex_files :: "string list" where
  "ex_files = [''d/a.jpg'', ''d/b.jpg'', ''d/notes.txt'', ''d/c.jpg'', ''d/w.jpg'']"

section \<open>Lemmas\<close>

subsection \<open>The grouping loop\<close>

lemma max_from_mem: "max_from key best xs \<in> set (best # xs)"
  by (induction xs arbitrary: best) auto

lemma max_from_ge_best: "key best \<le> key (max_from key best xs)"
proof (induction xs arbitrary: best)
  case Nil
  show ?case by simp
next
  case (Cons x xs)
  have "key best \<le> key (if key best < key x then x else best)" by simp
  also have "\<dots> \<le> key (max_from key (if key best < key x then x else best) xs)"
    by (rule Cons.IH)
  finally show ?case by simp
qed

lemma max_from_ge: "y \<in> set (best # xs) \<Longrightarrow> key y \<le> key (max_from key best xs)"
proof (induction xs arbitrary: best)
  case Nil
  then show ?case by simp
next
  case (Cons x xs)
  let ?b = "if key best < key x then x else best"
  from Cons.prems consider "y = best" | "y = x" | "y \<in> set xs" by auto
  then show ?case
  proof cases
    case 1
    have "key best \<le> key ?b" by simp
    also have "\<dots> \<le> key (max_from key ?b xs)" by (rule max_from_ge_best)
    finally show ?thesis using 1 by simp
  next
    case 2
    have "key x \<le> key ?b" by simp
    also have "\<dots> \<le> key (max_from key ?b xs)" by (rule max_from_ge_best)
    finally show ?thesis using 2 by simp
  next
    case 3
    then have "key y \<le> key (max_from key ?b xs)" by (intro Cons.IH) simp
    then show ?thesis by simp
  qed
qed

text \<open>The maximum chosen is the first element that reaches it.\<close>

lemma max_from_first:
  "\<exists>pre post. best # xs = pre @ max_from key best xs # post \<and>
      (\<forall>y\<in>set pre. key y < key (max_from key best xs))"
proof (induction xs arbitrary: best)
  case Nil
  show ?case by (rule exI [of _ "[]"]) simp
next
  case (Cons x xs)
  define b where "b = (if key best < key x then x else best)"
  define m where "m = max_from key b xs"
  have m_eq: "max_from key best (x # xs) = m" by (simp add: m_def b_def)
  from Cons.IH [of b] obtain pre post where
    eq: "b # xs = pre @ m # post" and lt: "\<forall>y\<in>set pre. key y < key m"
    unfolding m_def by blast
  have ge: "key b \<le> key m" unfolding m_def by (rule max_from_ge_best)
  have "\<exists>pre' post'. best # x # xs = pre' @ m # post' \<and> (\<forall>y\<in>set pre'. key y < key m)"
  proof (cases "key best < key x")
    case True
    then have bx: "b = x" by (simp add: b_def)
    have "best # x # xs = (best # pre) @ m # post" using eq bx by simp
    moreover have "\<forall>y\<in>set (best # pre). key y < key m" using True ge bx lt by auto
    ultimately show ?thesis by blast
  next
    case False
    then have bb: "b = best" by (simp add: b_def)
    show ?thesis
    proof (cases pre)
      case Nil
      then have "best # x # xs = [] @ m # (x # post)" using eq bb by simp
      moreover have "\<forall>y\<in>set []. key y < key m" by simp
      ultimately show ?thesis by blast
    next
      case (Cons p pre')
      then have p: "p = best" and xs: "xs = pre' @ m # post" using eq bb by simp_all
      have "key x \<le> key best" using False by simp
      also have "key best < key m" using lt Cons p by simp
      finally have "key x < key m" .
      then have "\<forall>y\<in>set (best # x # pre'). key y < key m" using lt Cons p by simp
      moreover have "best # x # xs = (best # x # pre') @ m # post" using xs by simp
      ultimately show ?thesis by blast
    qed
  qed
  then show ?case unfolding m_eq .
qed

lemma fold_assign: "fold (\<lambda>syn sg. sg(syn \<mapsto> c)) G m x = (if x \<in> set G then Some c else m x)"
  by (induction G arbitrary: m) auto

lemma group_step_apply:
  "group_step sv kf k m x =
     (if m k = None \<and> x \<in> set (group_of sv kf k) then Some (main_of sv kf k) else m x)"
  by (simp add: group_step_def fold_assign)

lemma group_step_skip: "m k \<noteq> None \<Longrightarrow> group_step sv kf k m = m"
  by (auto simp: group_step_def)

lemma main_of_mem: "main_of sv kf k \<in> set (group_of sv kf k)"
  unfolding main_of_def group_of_def by (rule max_from_mem)

lemma trigger_in_group: "k \<in> set (group_of sv kf k)"
  by (simp add: group_of_def)

lemma loop_untouched:
  "\<forall>t\<in>set (triggers sv kf ks m). x \<notin> set (group_of sv kf t) \<Longrightarrow>
     fold (group_step sv kf) ks m x = m x"
proof (induction ks arbitrary: m)
  case Nil
  show ?case by simp
next
  case (Cons k ks)
  show ?case
  proof (cases "m k = None")
    case True
    with Cons.prems have nk: "x \<notin> set (group_of sv kf k)"
      and rest: "\<forall>t\<in>set (triggers sv kf ks (group_step sv kf k m)). x \<notin> set (group_of sv kf t)"
      by simp_all
    have "fold (group_step sv kf) ks (group_step sv kf k m) x = group_step sv kf k m x"
      using rest by (rule Cons.IH)
    also have "\<dots> = m x" using nk by (simp add: group_step_apply)
    finally show ?thesis by simp
  next
    case False
    then have same: "group_step sv kf k m = m" by (rule group_step_skip)
    from Cons.prems False have "\<forall>t\<in>set (triggers sv kf ks m). x \<notin> set (group_of sv kf t)"
      by simp
    then have "fold (group_step sv kf) ks m x = m x" by (rule Cons.IH)
    then show ?thesis using same by simp
  qed
qed

lemma loop_last_wins:
  "triggers sv kf ks m = pre @ t # post \<Longrightarrow> x \<in> set (group_of sv kf t) \<Longrightarrow>
   \<forall>t'\<in>set post. x \<notin> set (group_of sv kf t') \<Longrightarrow>
     fold (group_step sv kf) ks m x = Some (main_of sv kf t)"
proof (induction ks arbitrary: m pre)
  case Nil
  then show ?case by simp
next
  case (Cons k ks)
  show ?case
  proof (cases "m k = None")
    case True
    let ?m' = "group_step sv kf k m"
    from Cons.prems(1) True have tr: "k # triggers sv kf ks ?m' = pre @ t # post" by simp
    show ?thesis
    proof (cases pre)
      case Nil
      with tr have kt: "k = t" and post: "triggers sv kf ks ?m' = post" by auto
      have "fold (group_step sv kf) ks ?m' x = ?m' x"
        using Cons.prems(3) post by (intro loop_untouched) simp
      also have "\<dots> = Some (main_of sv kf t)"
        using True Cons.prems(2) kt by (simp add: group_step_apply)
      finally show ?thesis by simp
    next
      case pre_Cons: (Cons p pre')
      with tr have "triggers sv kf ks ?m' = pre' @ t # post" by auto
      then have "fold (group_step sv kf) ks ?m' x = Some (main_of sv kf t)"
        using Cons.prems(2,3) by (rule Cons.IH)
      then show ?thesis by simp
    qed
  next
    case False
    then have same: "group_step sv kf k m = m" by (rule group_step_skip)
    from Cons.prems(1) False have "triggers sv kf ks m = pre @ t # post" by simp
    then have "fold (group_step sv kf) ks m x = Some (main_of sv kf t)"
      using Cons.prems(2,3) by (rule Cons.IH)
    then show ?thesis using same by simp
  qed
qed

lemma loop_origin:
  assumes "fold (group_step sv kf) ks m x = Some c"
  shows "m x = Some c \<or>
     (\<exists>pre t post. triggers sv kf ks m = pre @ t # post \<and> x \<in> set (group_of sv kf t) \<and>
        (\<forall>t'\<in>set post. x \<notin> set (group_of sv kf t')) \<and> c = main_of sv kf t)"
proof (cases "\<exists>t\<in>set (triggers sv kf ks m). x \<in> set (group_of sv kf t)")
  case False
  then have "fold (group_step sv kf) ks m x = m x" by (intro loop_untouched) blast
  with assms show ?thesis by simp
next
  case True
  then obtain pre t post where dec: "triggers sv kf ks m = pre @ t # post"
    and xt: "x \<in> set (group_of sv kf t)" and last: "\<forall>t'\<in>set post. x \<notin> set (group_of sv kf t')"
    using split_list_last_prop [of "triggers sv kf ks m" "\<lambda>t. x \<in> set (group_of sv kf t)"]
    by blast
  then have "fold (group_step sv kf) ks m x = Some (main_of sv kf t)" by (rule loop_last_wins)
  with assms have "c = main_of sv kf t" by simp
  with dec xt last show ?thesis by blast
qed

text \<open>The loop as a whole: the last group that contains a keyword decides its entry.\<close>

lemma loop_last_group:
  "fold (group_step sv kf) ks m x =
     (case last_group sv kf (triggers sv kf ks m) x of
        Some t \<Rightarrow> Some (main_of sv kf t) | None \<Rightarrow> m x)"
proof (induction ks arbitrary: m)
  case Nil
  show ?case by simp
next
  case (Cons k ks)
  show ?case
  proof (cases "m k = None")
    case True
    let ?m' = "group_step sv kf k m"
    have step: "?m' x = (if x \<in> set (group_of sv kf k) then Some (main_of sv kf k) else m x)"
      using True by (simp add: group_step_apply)
    have "fold (group_step sv kf) (k # ks) m x = fold (group_step sv kf) ks ?m' x"
      by simp
    also have "\<dots> = (case last_group sv kf (triggers sv kf ks ?m') x of
        Some t \<Rightarrow> Some (main_of sv kf t) | None \<Rightarrow> ?m' x)"
      by (rule Cons.IH)
    also have "\<dots> = (case last_group sv kf (k # triggers sv kf ks ?m') x of
        Some t \<Rightarrow> Some (main_of sv kf t) | None \<Rightarrow> m x)"
      by (simp add: step split: option.split)
    also have "k # triggers sv kf ks ?m' = triggers sv kf (k # ks) m"
      using True by simp
    finally show ?thesis .
  next
    case False
    then have same: "group_step sv kf k m = m" by (rule group_step_skip)
    have "fold (group_step sv kf) (k # ks) m x = fold (group_step sv kf) ks m x"
      by (simp add: same)
    also have "\<dots> = (case last_group sv kf (triggers sv kf ks m) x of
        Some t \<Rightarrow> Some (main_of sv kf t) | None \<Rightarrow> m x)"
      by (rule Cons.IH)
    also have "triggers sv kf ks m = triggers sv kf (k # ks) m"
      using False by auto
    finally show ?thesis .
  qed
qed

lemma last_group_Some:
  "last_group sv kf ts x = Some t \<Longrightarrow> t \<in> set ts \<and> x \<in> set (group_of sv kf t)"
  by (induction ts) (auto split: option.splits if_splits)

lemma last_group_mem:
  "t \<in> set ts \<Longrightarrow> x \<in> set (group_of sv kf t) \<Longrightarrow> last_group sv kf ts x \<noteq> None"
  by (induction ts) (auto split: option.splits)

lemma process_keywords_fst:
  "fst (process_keywords sv ks) = Counter (map (\<lambda>keyword. handle_plurals sv (lower sv keyword)) ks)"
  by (simp add: process_keywords_def Let_def)

lemma process_keywords_snd:
  "snd (process_keywords sv ks) =
     fold (group_step sv (fst (process_keywords sv ks))) (keys (fst (process_keywords sv ks))) Map.empty"
  by (simp add: process_keywords_def Let_def)

lemma formed_triggers_eq:
  "formed_triggers sv ks =
     triggers sv (fst (process_keywords sv ks)) (keys (fst (process_keywords sv ks))) Map.empty"
  by (simp add: formed_triggers_def Let_def)

subsection \<open>Strings and extraction\<close>

lemma ascii_lower_char_idem: "ascii_lower_char (ascii_lower_char c) = ascii_lower_char c"
proof (cases "CHR ''A'' \<le> c \<and> c \<le> CHR ''Z''")
  case False
  then have "ascii_lower_char c = c" unfolding ascii_lower_char_def by (rule if_not_P)
  then show ?thesis by simp
next
  case True
  then have lo: "65 \<le> (of_char c :: nat)" and hi: "(of_char c :: nat) \<le> 90"
    by (simp_all add: less_eq_char_def)
  have "(of_char (char_of (of_char c + (32::nat))) :: nat) = of_char c + 32"
    using hi by simp
  then have "\<not> (char_of (of_char c + (32::nat)) \<le> CHR ''Z'')"
    using lo by (simp add: less_eq_char_def)
  then have "ascii_lower_char (char_of (of_char c + (32::nat))) = char_of (of_char c + (32::nat))"
    unfolding ascii_lower_char_def by simp
  moreover have "ascii_lower_char c = char_of (of_char c + (32::nat))"
    unfolding ascii_lower_char_def using True by (rule if_P)
  ultimately show ?thesis by simp
qed

lemma ascii_lower_idem: "ascii_lower (ascii_lower s) = ascii_lower s"
  by (simp add: ascii_lower_def ascii_lower_char_idem)

lemma ascii_lower_Nil_iff: "ascii_lower s = [] \<longleftrightarrow> s = []"
  by (simp add: ascii_lower_def)

lemma fold_merge_field:
  "fold (merge_field md) fs A =
     A \<union> (\<Union>field\<in>set fs. case md field of None \<Rightarrow> {} | Some (ListV vs) \<Rightarrow> set vs | Some (Scalar v) \<Rightarrow> {v})"
proof (induction fs arbitrary: A)
  case Nil
  show ?case by simp
next
  case (Cons f fs)
  have "fold (merge_field md) (f # fs) A = fold (merge_field md) fs (merge_field md f A)"
    by simp
  also have "\<dots> = merge_field md f A \<union>
      (\<Union>field\<in>set fs. case md field of None \<Rightarrow> {} | Some (ListV vs) \<Rightarrow> set vs | Some (Scalar v) \<Rightarrow> {v})"
    by (rule Cons.IH)
  also have "merge_field md f A =
      A \<union> (case md f of None \<Rightarrow> {} | Some (ListV vs) \<Rightarrow> set vs | Some (Scalar v) \<Rightarrow> {v})"
    unfolding merge_field_def by (simp split: option.split mvalue.split)
  finally show ?case by (simp add: Un_assoc)
qed

lemma merged_values_eq: "fold (merge_field md) METADATA_FIELDS {} = merged_values md"
  by (simp add: fold_merge_field merged_values_def)

lemma finite_merged_values: "finite (merged_values md)"
  unfolding merged_values_def
  by (rule finite_UN_I) (auto split: option.split mvalue.split)

lemma lower_all_text:
  "\<forall>a\<in>A. truthy a \<longrightarrow> is_Str a \<Longrightarrow>
     lower_all sv ({a \<in> A. truthy a}) = Inr (lower sv ` {s. s \<noteq> [] \<and> Str s \<in> A})"
proof -
  assume strs: "\<forall>a\<in>A. truthy a \<longrightarrow> is_Str a"
  have "(\<lambda>a. lower sv (un_Str a)) ` {a \<in> A. truthy a} = lower sv ` {s. s \<noteq> [] \<and> Str s \<in> A}"
  proof (intro set_eqI iffI)
    fix k assume "k \<in> (\<lambda>a. lower sv (un_Str a)) ` {a \<in> A. truthy a}"
    then obtain a where a: "a \<in> A" "truthy a" and k: "k = lower sv (un_Str a)" by auto
    with strs obtain s where "a = Str s" by (cases a) auto
    with a k show "k \<in> lower sv ` {s. s \<noteq> [] \<and> Str s \<in> A}" by auto
  next
    fix k assume "k \<in> lower sv ` {s. s \<noteq> [] \<and> Str s \<in> A}"
    then obtain s where "s \<noteq> []" "Str s \<in> A" "k = lower sv s" by auto
    then have "Str s \<in> {a \<in> A. truthy a}" and "k = lower sv (un_Str (Str s))" by simp_all
    then show "k \<in> (\<lambda>a. lower sv (un_Str a)) ` {a \<in> A. truthy a}" by blast
  qed
  moreover have "\<forall>a\<in>{a \<in> A. truthy a}. is_Str a" using strs by simp
  ultimately show ?thesis by (simp add: lower_all_def)
qed

lemma lower_all_number:
  "\<not> (\<forall>a\<in>A. truthy a \<longrightarrow> is_Str a) \<Longrightarrow> lower_all sv ({a \<in> A. truthy a}) = Inl AttributeError"
  by (auto simp: lower_all_def)

lemma extract_keywords_read:
  "get_metadata sv p = Inr (md # rest) \<Longrightarrow>
     extract_keywords sv p =
       (if \<forall>a\<in>merged_values md. truthy a \<longrightarrow> is_Str a
        then Inr (lower sv ` {s. s \<noteq> [] \<and> Str s \<in> merged_values md})
        else Inl AttributeError)"
  by (simp add: extract_keywords_def merged_values_eq lower_all_text lower_all_number)

lemma extract_keywords_Inr:
  assumes "extract_keywords sv p = Inr S"
  obtains md rest where "get_metadata sv p = Inr (md # rest)"
    and "\<forall>a\<in>merged_values md. truthy a \<longrightarrow> is_Str a"
    and "S = lower sv ` {s. s \<noteq> [] \<and> Str s \<in> merged_values md}"
proof (cases "get_metadata sv p")
  case (Inl e)
  with assms show ?thesis by (simp add: extract_keywords_def)
next
  case (Inr mds)
  show ?thesis
  proof (cases mds)
    case Nil
    with Inr assms show ?thesis by (simp add: extract_keywords_def)
  next
    case (Cons md rest)
    with Inr have gm: "get_metadata sv p = Inr (md # rest)" by simp
    from assms show ?thesis
      unfolding extract_keywords_read [OF gm]
      by (auto split: if_splits intro: that [OF gm])
  qed
qed

lemma extract_keywords_finite: "extract_keywords sv p = Inr S \<Longrightarrow> finite S"
proof (erule extract_keywords_Inr)
  fix md rest
  assume S: "S = lower sv ` {s. s \<noteq> [] \<and> Str s \<in> merged_values md}"
  have "{s. s \<noteq> [] \<and> Str s \<in> merged_values md} \<subseteq> un_Str ` merged_values md" by force
  then have "finite {s. s \<noteq> [] \<and> Str s \<in> merged_values md}"
    by (rule finite_subset) (simp add: finite_merged_values)
  then show "finite S" unfolding S by simp
qed

subsection \<open>The frequency table, totality of the mapping, and the collecting loop\<close>

lemma counter_add_keys:
  "map fst (counter_add x c) = (if x \<in> set (map fst c) then map fst c else map fst c @ [x])"
  by (induction c) force+

lemma Counter_fold_keys: "set (map fst (fold counter_add xs c)) = set (map fst c) \<union> set xs"
proof (induction xs arbitrary: c)
  case Nil
  show ?case by simp
next
  case (Cons x xs)
  have "set (map fst (counter_add x c)) = insert x (set (map fst c))"
    unfolding counter_add_keys by auto
  then show ?case unfolding fold_simps Cons.IH by auto
qed

lemma keys_Counter: "set (keys (Counter xs)) = set xs"
  unfolding keys_def Counter_def Counter_fold_keys by simp

lemma count_of_counter_add:
  "count_of (counter_add x c) y = (if y = x then Suc (count_of c x) else count_of c y)"
  by (induction c) (auto simp: count_of_def)

lemma count_of_fold: "count_of (fold counter_add xs c) y = count_of c y + count_list xs y"
  by (induction xs arbitrary: c) (simp_all add: count_of_counter_add)

lemma count_of_Counter: "count_of (Counter xs) y = count_list xs y"
proof -
  have "count_of [] y = 0" by (simp add: count_of_def)
  then show ?thesis unfolding Counter_def count_of_fold by simp
qed

lemma group_step_mono: "m x \<noteq> None \<Longrightarrow> group_step sv kf k m x \<noteq> None"
  by (simp add: group_step_apply)

lemma group_step_self: "group_step sv kf k m k \<noteq> None"
  by (simp add: group_step_apply trigger_in_group)

lemma loop_mono: "m x \<noteq> None \<Longrightarrow> fold (group_step sv kf) ks m x \<noteq> None"
proof (induction ks arbitrary: m)
  case Nil
  then show ?case by simp
next
  case (Cons a ks)
  from Cons.prems have "group_step sv kf a m x \<noteq> None" by (rule group_step_mono)
  then have "fold (group_step sv kf) ks (group_step sv kf a m) x \<noteq> None" by (rule Cons.IH)
  then show ?case by simp
qed

lemma loop_total: "k \<in> set ks \<Longrightarrow> fold (group_step sv kf) ks m k \<noteq> None"
proof (induction ks arbitrary: m)
  case Nil
  then show ?case by simp
next
  case (Cons a ks)
  show ?case
  proof (cases "k = a")
    case True
    have "fold (group_step sv kf) ks (group_step sv kf a m) a \<noteq> None"
      by (rule loop_mono) (rule group_step_self)
    then show ?thesis using True by simp
  next
    case False
    with Cons.prems have "k \<in> set ks" by simp
    then have "fold (group_step sv kf) ks (group_step sv kf a m) k \<noteq> None" by (rule Cons.IH)
    then show ?thesis by simp
  qed
qed

lemma process_keywords_total:
  "k \<in> set (keys (fst (process_keywords sv corpus))) \<Longrightarrow> snd (process_keywords sv corpus) k \<noteq> None"
  unfolding process_keywords_snd by (rule loop_total)

lemma corpus_in_keys:
  "keyword \<in> set corpus \<Longrightarrow>
     handle_plurals sv (lower sv keyword) \<in> set (keys (fst (process_keywords sv corpus)))"
  by (simp add: process_keywords_fst keys_Counter)

lemma update_set: "(p, s) \<in> set (AList.update k v al) \<Longrightarrow> (p, s) = (k, v) \<or> (p, s) \<in> set al"
  by (induction al) (auto split: if_splits)

lemma collect_step_Inr:
  "extract_keywords sv f = Inr S \<Longrightarrow>
     collect_step sv f st =
       st\<lparr>all_keywords := all_keywords st @ iter_order sv S,
          file_keywords := AList.update f S (file_keywords st)\<rparr>"
  by (simp add: collect_step_def)

lemma collect_step_Inl:
  "extract_keywords sv f = Inl e \<Longrightarrow>
     collect_step sv f st =
       st\<lparr>printed := printed st @ [''Error processing '' @ f @ '': '' @ str_exn e]\<rparr>"
  by (simp add: collect_step_def)

lemma collect_step_cases:
  obtains (ok) S where "extract_keywords sv f = Inr S"
  | (err) e where "extract_keywords sv f = Inl e"
  by (cases "extract_keywords sv f") auto

lemma collect_step_ok: "collected_ok sv st \<Longrightarrow> collected_ok sv (collect_step sv f st)"
proof (cases rule: collect_step_cases [of sv f])
  case (ok S)
  assume "collected_ok sv st"
  then show ?thesis
    unfolding collected_ok_def collect_step_Inr [OF ok]
    using ok by (auto simp: distinct_update dest: update_set)
next
  case (err e)
  assume "collected_ok sv st"
  then show ?thesis unfolding collected_ok_def collect_step_Inl [OF err] by simp
qed

lemma fold_collect_ok: "collected_ok sv st \<Longrightarrow> collected_ok sv (fold (collect_step sv) fs st)"
  by (induction fs arbitrary: st) (simp_all add: collect_step_ok)

lemma collect_ok: "collected_ok sv (collect sv fs)"
  unfolding collect_def by (rule fold_collect_ok) (simp add: collected_ok_def)

lemma collect_distinct: "distinct (map fst (file_keywords (collect sv fs)))"
  using collect_ok [of sv fs] by (simp add: collected_ok_def)

lemma collect_extracted:
  "(p, S) \<in> set (file_keywords (collect sv fs)) \<Longrightarrow> extract_keywords sv p = Inr S"
  using collect_ok [of sv fs] by (auto simp: collected_ok_def)

lemma collect_step_corpus:
  assumes en: "enumerates (iter_order sv)"
    and inv: "\<forall>(p, S)\<in>set (file_keywords st). S \<subseteq> set (all_keywords st)"
  shows "\<forall>(p, S)\<in>set (file_keywords (collect_step sv f st)). S \<subseteq> set (all_keywords (collect_step sv f st))"
proof (cases rule: collect_step_cases [of sv f])
  case (ok S)
  then have "finite S" by (rule extract_keywords_finite)
  with en have "set (iter_order sv S) = S" by (simp add: enumerates_def)
  with inv show ?thesis
    unfolding collect_step_Inr [OF ok] by (auto dest!: update_set)
next
  case (err e)
  with inv show ?thesis unfolding collect_step_Inl [OF err] by simp
qed

lemma fold_collect_corpus:
  "enumerates (iter_order sv) \<Longrightarrow>
   \<forall>(p, S)\<in>set (file_keywords st). S \<subseteq> set (all_keywords st) \<Longrightarrow>
   \<forall>(p, S)\<in>set (file_keywords (fold (collect_step sv) fs st)).
      S \<subseteq> set (all_keywords (fold (collect_step sv) fs st))"
proof (induction fs arbitrary: st)
  case Nil
  then show ?case by simp
next
  case (Cons f fs)
  from Cons.prems have "\<forall>(p, S)\<in>set (file_keywords (collect_step sv f st)).
      S \<subseteq> set (all_keywords (collect_step sv f st))"
    by (rule collect_step_corpus)
  with Cons.prems(1) show ?case unfolding fold_simps by (rule Cons.IH)
qed

lemma collect_corpus:
  "enumerates (iter_order sv) \<Longrightarrow> (p, S) \<in> set (file_keywords (collect sv fs)) \<Longrightarrow>
     S \<subseteq> set (all_keywords (collect sv fs))"
  using fold_collect_corpus [of sv "\<lparr>file_keywords = [], all_keywords = [], printed = []\<rparr>" fs]
  by (auto simp: collect_def)

lemma enumerates_sorted: "enumerates sorted_list_of_set"
  by (simp add: enumerates_def)

subsection \<open>The example installation; what the collecting loop prints and keeps\<close>

lemma ex_iter: "iter_order ex_sv = sorted_list_of_set"
  by (simp add: ex_sv_def)

lemma ex_enumerates: "enumerates (iter_order ex_sv)"
  unfolding ex_iter by (rule enumerates_sorted)

lemma collect_step_printed:
  "printed (collect_step sv f st) =
     printed st @ printed (collect_step sv f \<lparr>file_keywords = [], all_keywords = [], printed = []\<rparr>)"
  by (cases rule: collect_step_cases [of sv f]) (simp_all add: collect_step_Inr collect_step_Inl)

lemma fold_collect_printed:
  "printed (fold (collect_step sv) fs st) = printed st @ printed (collect sv fs)"
proof (induction fs arbitrary: st)
  case Nil
  show ?case by (simp add: collect_def)
next
  case (Cons f fs)
  let ?init = "\<lparr>file_keywords = [], all_keywords = [], printed = []\<rparr>"
  have "printed (collect sv (f # fs)) = printed (fold (collect_step sv) fs (collect_step sv f ?init))"
    by (simp only: collect_def fold_simps comp_apply)
  also have "\<dots> = printed (collect_step sv f ?init) @ printed (collect sv fs)"
    by (rule Cons.IH)
  finally have tail: "printed (collect sv (f # fs))
      = printed (collect_step sv f ?init) @ printed (collect sv fs)" .
  have "printed (fold (collect_step sv) (f # fs) st)
      = printed (fold (collect_step sv) fs (collect_step sv f st))"
    by (simp only: fold_simps comp_apply)
  also have "\<dots> = printed (collect_step sv f st) @ printed (collect sv fs)"
    by (rule Cons.IH)
  also have "printed (collect_step sv f st) = printed st @ printed (collect_step sv f ?init)"
    by (rule collect_step_printed)
  finally show ?case by (simp only: tail append_assoc)
qed

lemma collect_step_data:
  "file_keywords st = file_keywords st' \<Longrightarrow> all_keywords st = all_keywords st' \<Longrightarrow>
     file_keywords (collect_step sv f st) = file_keywords (collect_step sv f st') \<and>
     all_keywords (collect_step sv f st) = all_keywords (collect_step sv f st')"
  by (cases rule: collect_step_cases [of sv f]) (simp_all add: collect_step_Inr collect_step_Inl)

lemma fold_collect_data:
  "file_keywords st = file_keywords st' \<Longrightarrow> all_keywords st = all_keywords st' \<Longrightarrow>
     file_keywords (fold (collect_step sv) fs st) = file_keywords (fold (collect_step sv) fs st') \<and>
     all_keywords (fold (collect_step sv) fs st) = all_keywords (fold (collect_step sv) fs st')"
proof (induction fs arbitrary: st st')
  case Nil
  then show ?case by simp
next
  case (Cons f fs)
  from collect_step_data [OF Cons.prems, of sv f]
  have "file_keywords (collect_step sv f st) = file_keywords (collect_step sv f st')"
    and "all_keywords (collect_step sv f st) = all_keywords (collect_step sv f st')"
    by simp_all
  then show ?case unfolding fold_simps by (rule Cons.IH)
qed

lemma collect_keys:
  "p \<in> fst ` set (file_keywords (collect sv fs)) \<Longrightarrow> \<exists>S. extract_keywords sv p = Inr S"
  using collect_extracted by fastforce

subsection \<open>The files to rewrite and the write requests\<close>

lemma update_fresh: "k \<notin> fst ` set al \<Longrightarrow> AList.update k v al = al @ [(k, v)]"
  by (induction al) auto

lemma changed_step_eq:
  "changed_step sv sg item acc =
     (if update_image_keywords sv (snd item) sg \<noteq> snd item
      then AList.update (fst item) (update_image_keywords sv (snd item) sg) acc else acc)"
  by (simp add: changed_step_def Let_def)

lemma fold_changed:
  "distinct (map fst items) \<Longrightarrow> fst ` set items \<inter> fst ` set acc = {} \<Longrightarrow>
     fold (changed_step sv sg) items acc =
       acc @ map (\<lambda>item. (fst item, update_image_keywords sv (snd item) sg))
               (filter (\<lambda>item. update_image_keywords sv (snd item) sg \<noteq> snd item) items)"
proof (induction items arbitrary: acc)
  case Nil
  show ?case by simp
next
  case (Cons item items)
  let ?u = "update_image_keywords sv (snd item) sg"
  from Cons.prems have fresh: "fst item \<notin> fst ` set acc" and d: "distinct (map fst items)"
    and new: "fst item \<notin> fst ` set items" and dis: "fst ` set items \<inter> fst ` set acc = {}"
    by auto
  show ?case
  proof (cases "?u \<noteq> snd item")
    case True
    then have step: "changed_step sv sg item acc = acc @ [(fst item, ?u)]"
      using fresh by (simp add: changed_step_eq update_fresh)
    have "fst ` set items \<inter> fst ` set (acc @ [(fst item, ?u)]) = {}"
      using new dis by auto
    with d have "fold (changed_step sv sg) items (acc @ [(fst item, ?u)]) =
        (acc @ [(fst item, ?u)]) @ map (\<lambda>item. (fst item, update_image_keywords sv (snd item) sg))
               (filter (\<lambda>item. update_image_keywords sv (snd item) sg \<noteq> snd item) items)"
      by (rule Cons.IH)
    then show ?thesis using True by (simp add: step)
  next
    case False
    then have step: "changed_step sv sg item acc = acc" by (simp add: changed_step_eq)
    from d dis have "fold (changed_step sv sg) items acc =
        acc @ map (\<lambda>item. (fst item, update_image_keywords sv (snd item) sg))
               (filter (\<lambda>item. update_image_keywords sv (snd item) sg \<noteq> snd item) items)"
      by (rule Cons.IH)
    then show ?thesis using False by (simp add: step)
  qed
qed

lemma process_directory_fst:
  "fst (process_directory sv files) =
     map (\<lambda>item. (fst item, update_image_keywords sv (snd item)
                     (snd (process_keywords sv (all_keywords (collect sv files))))))
       (filter (\<lambda>item. update_image_keywords sv (snd item)
                     (snd (process_keywords sv (all_keywords (collect sv files)))) \<noteq> snd item)
          (file_keywords (collect sv files)))"
  using fold_changed [OF collect_distinct, of sv files "[]"]
  by (simp add: process_directory_def Let_def)

lemma write_request_fst: "fst (write_request sv item) = fst item"
  by (simp add: write_request_def Let_def)

lemma fold_write_requests:
  "fst (fold (write_step sv) items acc) = fst acc @ map (write_request sv) items"
  by (induction items arbitrary: acc) (simp_all add: write_step_def Let_def)

lemma update_metadata_requests:
  "fst (update_metadata sv items) = map (write_request sv) items"
  by (simp add: update_metadata_def fold_write_requests)

lemma written_paths:
  "map fst (fst (update_metadata sv items)) = map fst items"
  by (simp add: update_metadata_requests write_request_fst comp_def)

lemma fold_collect_map_of:
  "map_of (file_keywords (fold (collect_step sv) fs st)) p =
     (case (if p \<in> set fs then extract_keywords sv p else Inl IndexError) of
        Inr S \<Rightarrow> Some S | Inl e \<Rightarrow> map_of (file_keywords st) p)"
proof (induction fs arbitrary: st)
  case Nil
  show ?case by simp
next
  case (Cons f fs)
  have step: "map_of (file_keywords (collect_step sv f st)) p =
      (case (if p = f then extract_keywords sv p else Inl IndexError) of
         Inr S \<Rightarrow> Some S | Inl e \<Rightarrow> map_of (file_keywords st) p)"
    by (cases rule: collect_step_cases [of sv f])
       (simp_all add: collect_step_Inr collect_step_Inl update_conv')
  have "map_of (file_keywords (fold (collect_step sv) (f # fs) st)) p =
      (case (if p \<in> set fs then extract_keywords sv p else Inl IndexError) of
        Inr S \<Rightarrow> Some S | Inl e \<Rightarrow> map_of (file_keywords (collect_step sv f st)) p)"
    by (simp only: fold_simps comp_apply Cons.IH)
  then show ?case unfolding step by (auto split: sum.splits if_splits)
qed

lemma collect_map_of_iff:
  "map_of (file_keywords (collect sv files)) p = Some S \<longleftrightarrow>
     p \<in> set files \<and> extract_keywords sv p = Inr S"
  unfolding collect_def fold_collect_map_of by (simp split: sum.splits)

subsection \<open>Isolated keywords\<close>

lemma update_image_keywords_finite:
  "finite keywords \<Longrightarrow> finite (update_image_keywords sv keywords sg)"
  by (simp add: update_image_keywords_def)

lemma triggers_subset: "set (triggers sv kf ks m) \<subseteq> set ks"
  by (induction ks arbitrary: m) auto

lemma finite_fold_insert: "finite A \<Longrightarrow> finite (fold (\<lambda>x acc. insert (g x) acc) xs A)"
  by (induction xs arbitrary: A) simp_all

lemma finite_fold_fold_insert:
  "finite A \<Longrightarrow> finite (fold (\<lambda>syn acc. fold (\<lambda>x acc. insert (g x) acc) syn acc) xss A)"
  by (induction xss arbitrary: A) (simp_all add: finite_fold_insert)

lemma finite_get_synonyms: "finite (get_synonyms sv w)"
  unfolding get_synonyms_def by (rule finite_fold_fold_insert) simp

lemma group_of_subset:
  "enumerates (iter_order sv) \<Longrightarrow>
     set (group_of sv kf k) \<subseteq> insert k (get_synonyms sv k \<inter> set (keys kf))"
  using finite_get_synonyms [of sv k] by (auto simp: group_of_def enumerates_def)

lemma isolated_group:
  assumes en: "enumerates (iter_order sv)" and iso: "isolated sv kf k"
  shows "set (group_of sv kf k) = {k}"
proof -
  from iso have "get_synonyms sv k \<inter> set (keys kf) \<subseteq> {k}" by (auto simp: isolated_def)
  with group_of_subset [OF en, of kf k] have "set (group_of sv kf k) \<subseteq> {k}" by blast
  with trigger_in_group [of k sv kf] show ?thesis by blast
qed

lemma isolated_loop:
  assumes en: "enumerates (iter_order sv)" and iso: "isolated sv kf k"
    and k: "k \<in> set (keys kf)"
  shows "fold (group_step sv kf) (keys kf) Map.empty k = Some k"
proof -
  from k have "fold (group_step sv kf) (keys kf) Map.empty k \<noteq> None" by (rule loop_total)
  then obtain c where c: "fold (group_step sv kf) (keys kf) Map.empty k = Some c" by blast
  from loop_origin [OF c] obtain pre t post where
    dec: "triggers sv kf (keys kf) Map.empty = pre @ t # post"
    and kt: "k \<in> set (group_of sv kf t)" and ct: "c = main_of sv kf t"
    by auto
  from dec have "t \<in> set (triggers sv kf (keys kf) Map.empty)" by simp
  with triggers_subset have t: "t \<in> set (keys kf)" by blast
  have "t = k"
  proof (rule ccontr)
    assume ne: "t \<noteq> k"
    with kt group_of_subset [OF en, of kf t] have "k \<in> get_synonyms sv t" by auto
    with iso t ne show False by (auto simp: isolated_def)
  qed
  with ct have "c \<in> set (group_of sv kf k)" by (simp add: main_of_mem)
  with isolated_group [OF en iso] have "c = k" by simp
  with c show ?thesis by simp
qed

section \<open>The claims\<close>

text \<open>
  C1, as stated: for every corpus and every keyword \<open>k\<close> of the resulting mapping, the
  canonical term of \<open>k\<close> is mapped to itself. This fails when two groups overlap: with
  one \<open>photo\<close>, two \<open>picture\<close> and three \<open>film\<close>, the group of \<open>photo\<close> makes
  \<open>picture\<close> canonical, and the group of \<open>film\<close> then maps \<open>picture\<close> to \<open>film\<close>.
\<close>

theorem canonical_not_idempotent:
  "snd (process_keywords ex_sv ex_corpus) ''photo'' = Some ''picture''
   \<and> snd (process_keywords ex_sv ex_corpus) ''picture'' = Some ''film''"
  by code_simp

text \<open>
  C1, amended: let \<open>c\<close> be the canonical term assigned to a keyword \<open>k\<close> of the mapping.
  Then \<open>c\<close> is a member of one of the groups formed, and \<open>c\<close> is mapped to itself if and
  only if the last group formed that has \<open>c\<close> as a member chose \<open>c\<close> as its canonical
  term. In particular \<open>c\<close> is mapped to itself whenever it belongs to no group formed
  after a group that chose it.
\<close>

theorem canonical_fixed_iff_last_group:
  assumes kf: "kf = fst (process_keywords sv corpus)"
    and sg: "sg = snd (process_keywords sv corpus)"
    and kc: "sg k = Some c"
  shows "(\<exists>t. last_group sv kf (formed_triggers sv corpus) c = Some t
            \<and> (sg c = Some c \<longleftrightarrow> main_of sv kf t = c))
     \<and> (\<forall>pre t post.
           formed_triggers sv corpus = pre @ t # post \<and> main_of sv kf t = c
             \<and> (\<forall>t'\<in>set post. c \<notin> set (group_of sv kf t'))
           \<longrightarrow> sg c = Some c)"
proof -
  define ts where "ts = formed_triggers sv corpus"
  have tr: "ts = triggers sv kf (keys kf) Map.empty"
    unfolding ts_def kf by (rule formed_triggers_eq)
  have sg': "sg = fold (group_step sv kf) (keys kf) Map.empty"
    unfolding sg kf by (rule process_keywords_snd)
  have val: "sg x = (case last_group sv kf ts x of Some t \<Rightarrow> Some (main_of sv kf t) | None \<Rightarrow> None)"
    for x
    unfolding sg' tr by (simp add: loop_last_group)
  from kc obtain t0 where t0: "last_group sv kf ts k = Some t0" and c: "c = main_of sv kf t0"
    unfolding val by (auto split: option.splits)
  from t0 have "t0 \<in> set ts" by (simp add: last_group_Some)
  moreover have "c \<in> set (group_of sv kf t0)" unfolding c by (rule main_of_mem)
  ultimately have "last_group sv kf ts c \<noteq> None" by (rule last_group_mem)
  then obtain t where t: "last_group sv kf ts c = Some t" by blast
  then have "sg c = Some (main_of sv kf t)" by (simp add: val)
  with t have first: "\<exists>t. last_group sv kf ts c = Some t \<and> (sg c = Some c \<longleftrightarrow> main_of sv kf t = c)"
    by simp
  have second: "sg c = Some c"
    if dec: "ts = pre @ t # post" and m: "main_of sv kf t = c"
      and later: "\<forall>t'\<in>set post. c \<notin> set (group_of sv kf t')"
    for pre t post
  proof -
    have "c \<in> set (group_of sv kf t)" using main_of_mem [of sv kf t] m by simp
    moreover from tr dec have "triggers sv kf (keys kf) Map.empty = pre @ t # post" by simp
    ultimately have "fold (group_step sv kf) (keys kf) Map.empty c = Some (main_of sv kf t)"
      using later by (intro loop_last_wins)
    then show ?thesis by (simp add: sg' m)
  qed
  from first second show ?thesis unfolding ts_def by blast
qed

theorem canonical_fixed_iff_last_group_witness:
  "snd (process_keywords ex_sv ex_overlap) ''picture'' = Some ''film''
   \<and> last_group ex_sv (fst (process_keywords ex_sv ex_overlap)) (formed_triggers ex_sv ex_overlap)
        ''film'' = Some ''film''
   \<and> main_of ex_sv (fst (process_keywords ex_sv ex_overlap)) ''film'' = ''film''
   \<and> snd (process_keywords ex_sv ex_overlap) ''film'' = Some ''film''
   \<and> snd (process_keywords ex_sv ex_overlap) ''photo'' = Some ''photo''
   \<and> formed_triggers ex_sv ex_overlap = [] @ ''photo'' # [''film'']
   \<and> main_of ex_sv (fst (process_keywords ex_sv ex_overlap)) ''photo'' = ''photo''
   \<and> group_of ex_sv (fst (process_keywords ex_sv ex_overlap)) ''film''
        = [''film'', ''film'', ''picture'']"
proof -
  define kf where "kf = fst (process_keywords ex_sv ex_overlap)"
  define sg where "sg = snd (process_keywords ex_sv ex_overlap)"
  have k1: "sg ''picture'' = Some ''film''" unfolding sg_def by code_simp
  have l1: "last_group ex_sv kf (formed_triggers ex_sv ex_overlap) ''film'' = Some ''film''"
    unfolding kf_def by code_simp
  have m1: "main_of ex_sv kf ''film'' = ''film''" unfolding kf_def by code_simp
  from canonical_fixed_iff_last_group [OF kf_def sg_def k1] l1 m1
  have c1: "sg ''film'' = Some ''film''" by auto
  have k2: "sg ''photo'' = Some ''photo''" unfolding sg_def by code_simp
  have tr: "formed_triggers ex_sv ex_overlap = [] @ ''photo'' # [''film'']" by code_simp
  have m2: "main_of ex_sv kf ''photo'' = ''photo''" unfolding kf_def by code_simp
  have G: "group_of ex_sv kf ''film'' = [''film'', ''film'', ''picture'']"
    unfolding kf_def by code_simp
  have later: "\<forall>t'\<in>set [''film'']. ''photo'' \<notin> set (group_of ex_sv kf t')"
    by (simp add: G)
  from canonical_fixed_iff_last_group [OF kf_def sg_def k2] tr m2 later
  have c2: "sg ''photo'' = Some ''photo''" by blast
  from k1 l1 m1 c1 c2 tr m2 G show ?thesis unfolding kf_def sg_def by blast
qed

text \<open>
  C2, as stated: all members of a group formed are mapped to one canonical term. In the
  mapping returned this fails on the same corpus: \<open>photo\<close> and \<open>picture\<close> are the
  members of the first group formed, and end up with different canonical terms.
\<close>

theorem group_members_split:
  "formed_triggers ex_sv ex_corpus = [''photo'', ''film'']
   \<and> group_of ex_sv (fst (process_keywords ex_sv ex_corpus)) ''photo'' = [''photo'', ''photo'', ''picture'']
   \<and> snd (process_keywords ex_sv ex_corpus) ''photo'' = Some ''picture''
   \<and> snd (process_keywords ex_sv ex_corpus) ''picture'' = Some ''film''"
  by code_simp

text \<open>
  C2, amended: let \<open>G\<close> be the group formed for the keyword \<open>t\<close> and \<open>c\<close> the term chosen
  for it. Then \<open>c\<close> is a member of \<open>G\<close>, no member of \<open>G\<close> is more frequent than \<open>c\<close>,
  every member listed before \<open>c\<close> is strictly less frequent, every member of \<open>G\<close> is
  mapped to \<open>c\<close> when \<open>G\<close> is formed, and in the mapping returned every member of \<open>G\<close>
  that belongs to no group formed later is mapped to \<open>c\<close>.
\<close>

theorem group_canonical:
  assumes tr: "formed_triggers sv corpus = pre @ t # post"
    and kf: "kf = fst (process_keywords sv corpus)"
    and sg: "sg = snd (process_keywords sv corpus)"
    and G: "G = group_of sv kf t"
    and c: "c = main_of sv kf t"
  shows "c \<in> set G
    \<and> (\<forall>m\<in>set G. count_of kf m \<le> count_of kf c)
    \<and> (\<exists>before after. G = before @ c # after \<and> (\<forall>m\<in>set before. count_of kf m < count_of kf c))
    \<and> (\<forall>m0. m0 t = None \<longrightarrow> (\<forall>m\<in>set G. group_step sv kf t m0 m = Some c))
    \<and> (\<forall>m\<in>set G. (\<forall>t'\<in>set post. m \<notin> set (group_of sv kf t')) \<longrightarrow> sg m = Some c)"
proof -
  have 1: "c \<in> set G" unfolding c G by (rule main_of_mem)
  have 2: "\<forall>m\<in>set G. count_of kf m \<le> count_of kf c"
    unfolding c G main_of_def group_of_def by (blast intro: max_from_ge)
  have 3: "\<exists>before after. G = before @ c # after \<and> (\<forall>m\<in>set before. count_of kf m < count_of kf c)"
    unfolding c G main_of_def group_of_def by (rule max_from_first)
  have 4: "\<forall>m0. m0 t = None \<longrightarrow> (\<forall>m\<in>set G. group_step sv kf t m0 m = Some c)"
    by (simp add: group_step_apply G c)
  have sg': "sg = fold (group_step sv kf) (keys kf) Map.empty"
    unfolding sg kf by (rule process_keywords_snd)
  have tr': "triggers sv kf (keys kf) Map.empty = pre @ t # post"
    using tr unfolding kf by (simp add: formed_triggers_eq)
  have 5: "\<forall>m\<in>set G. (\<forall>t'\<in>set post. m \<notin> set (group_of sv kf t')) \<longrightarrow> sg m = Some c"
  proof (intro ballI impI)
    fix m assume "m \<in> set G" and "\<forall>t'\<in>set post. m \<notin> set (group_of sv kf t')"
    with tr' show "sg m = Some c" unfolding sg' c G by (intro loop_last_wins)
  qed
  from 1 2 3 4 5 show ?thesis by blast
qed

theorem group_canonical_witness:
  "formed_triggers ex_sv ex_corpus = [] @ ''photo'' # [''film'']
   \<and> group_of ex_sv (fst (process_keywords ex_sv ex_corpus)) ''photo'' = [''photo'', ''photo'', ''picture'']
   \<and> group_of ex_sv (fst (process_keywords ex_sv ex_corpus)) ''film'' = [''film'', ''film'', ''picture'']
   \<and> main_of ex_sv (fst (process_keywords ex_sv ex_corpus)) ''photo'' = ''picture''
   \<and> count_of (fst (process_keywords ex_sv ex_corpus)) ''photo''
        \<le> count_of (fst (process_keywords ex_sv ex_corpus)) ''picture''
   \<and> snd (process_keywords ex_sv ex_corpus) ''photo'' = Some ''picture''"
proof -
  define kf where "kf = fst (process_keywords ex_sv ex_corpus)"
  define sg where "sg = snd (process_keywords ex_sv ex_corpus)"
  have tr: "formed_triggers ex_sv ex_corpus = [] @ ''photo'' # [''film'']" by code_simp
  have G: "group_of ex_sv kf ''photo'' = [''photo'', ''photo'', ''picture'']"
    unfolding kf_def by code_simp
  have G': "group_of ex_sv kf ''film'' = [''film'', ''film'', ''picture'']"
    unfolding kf_def by code_simp
  have c: "main_of ex_sv kf ''photo'' = ''picture''" unfolding kf_def by code_simp
  note th = group_canonical [OF tr kf_def sg_def G [symmetric] c [symmetric]]
  from th have "\<forall>m\<in>set [''photo'', ''photo'', ''picture'']. count_of kf m \<le> count_of kf ''picture''"
    by blast
  then have le: "count_of kf ''photo'' \<le> count_of kf ''picture''" by simp
  from th have "\<forall>m\<in>set [''photo'', ''photo'', ''picture''].
      (\<forall>t'\<in>set [''film'']. m \<notin> set (group_of ex_sv kf t')) \<longrightarrow> sg m = Some ''picture''"
    by blast
  then have "(\<forall>t'\<in>set [''film'']. ''photo'' \<notin> set (group_of ex_sv kf t')) \<longrightarrow> sg ''photo'' = Some ''picture''"
    by simp
  moreover have "\<forall>t'\<in>set [''film'']. ''photo'' \<notin> set (group_of ex_sv kf t')"
    by (simp add: G')
  ultimately have "sg ''photo'' = Some ''picture''" by blast
  with tr G G' c le show ?thesis unfolding kf_def sg_def by blast
qed

text \<open>
  C3: for a file of the directory whose extraction succeeded, a write is attempted if
  and only if the canonicalised keyword set differs, as a set, from the extracted one;
  and no path is written twice.
\<close>

theorem write_iff_changed:
  assumes "p \<in> set files" and "extract_keywords sv p = Inr keywords"
  shows "(p \<in> set (map fst (fst (update_metadata sv (fst (process_directory sv files)))))
          \<longleftrightarrow> update_image_keywords sv keywords
                (snd (process_keywords sv (all_keywords (collect sv files)))) \<noteq> keywords)
     \<and> distinct (map fst (fst (update_metadata sv (fst (process_directory sv files)))))"
proof -
  define sg where "sg = snd (process_keywords sv (all_keywords (collect sv files)))"
  define fk where "fk = file_keywords (collect sv files)"
  have d: "distinct (map fst fk)" unfolding fk_def by (rule collect_distinct)
  have mo: "map_of fk p = Some keywords"
    unfolding fk_def using assms by (simp add: collect_map_of_iff)
  have paths: "map fst (fst (update_metadata sv (fst (process_directory sv files)))) =
      map fst (filter (\<lambda>item. update_image_keywords sv (snd item) sg \<noteq> snd item) fk)"
    unfolding written_paths process_directory_fst sg_def fk_def by (simp add: comp_def)
  have "p \<in> set (map fst (filter (\<lambda>item. update_image_keywords sv (snd item) sg \<noteq> snd item) fk))
      \<longleftrightarrow> update_image_keywords sv keywords sg \<noteq> keywords"
  proof
    assume "p \<in> set (map fst (filter (\<lambda>item. update_image_keywords sv (snd item) sg \<noteq> snd item) fk))"
    then have "p \<in> fst ` {item \<in> set fk. update_image_keywords sv (snd item) sg \<noteq> snd item}"
      by (simp only: set_map set_filter)
    then obtain item where "item \<in> set fk" and "fst item = p"
      and ch: "update_image_keywords sv (snd item) sg \<noteq> snd item"
      by blast
    then have "(p, snd item) \<in> set fk" by (metis prod.collapse)
    with d have "map_of fk p = Some (snd item)" by simp
    with mo have "snd item = keywords" by simp
    with ch show "update_image_keywords sv keywords sg \<noteq> keywords" by simp
  next
    assume ch: "update_image_keywords sv keywords sg \<noteq> keywords"
    from mo have "(p, keywords) \<in> set fk" by (rule map_of_SomeD)
    with ch have "(p, keywords) \<in> set (filter (\<lambda>item. update_image_keywords sv (snd item) sg \<noteq> snd item) fk)"
      by simp
    then show "p \<in> set (map fst (filter (\<lambda>item. update_image_keywords sv (snd item) sg \<noteq> snd item) fk))"
      by force
  qed
  moreover have "distinct (map fst (filter (\<lambda>item. update_image_keywords sv (snd item) sg \<noteq> snd item) fk))"
    using d by (rule distinct_map_filter)
  ultimately show ?thesis unfolding paths sg_def by blast
qed

theorem write_iff_changed_witness:
  "''d/c.jpg'' \<in> set ex_files \<and> extract_keywords ex_sv ''d/c.jpg'' = Inr {''dogs'', ''puppy''}
   \<and> update_image_keywords ex_sv {''dogs'', ''puppy''}
        (snd (process_keywords ex_sv (all_keywords (collect ex_sv ex_files)))) \<noteq> {''dogs'', ''puppy''}
   \<and> ''d/c.jpg'' \<in> set (map fst (fst (update_metadata ex_sv (fst (process_directory ex_sv ex_files)))))
   \<and> ''d/w.jpg'' \<in> set ex_files \<and> extract_keywords ex_sv ''d/w.jpg'' = Inr {''whale''}
   \<and> update_image_keywords ex_sv {''whale''}
        (snd (process_keywords ex_sv (all_keywords (collect ex_sv ex_files)))) = {''whale''}
   \<and> ''d/w.jpg'' \<notin> set (map fst (fst (update_metadata ex_sv (fst (process_directory ex_sv ex_files)))))"
proof -
  have c1: "''d/c.jpg'' \<in> set ex_files" by code_simp
  have c2: "extract_keywords ex_sv ''d/c.jpg'' = Inr {''dogs'', ''puppy''}" by code_simp
  have c3: "update_image_keywords ex_sv {''dogs'', ''puppy''}
        (snd (process_keywords ex_sv (all_keywords (collect ex_sv ex_files)))) \<noteq> {''dogs'', ''puppy''}"
    by code_simp
  have w1: "''d/w.jpg'' \<in> set ex_files" by code_simp
  have w2: "extract_keywords ex_sv ''d/w.jpg'' = Inr {''whale''}" by code_simp
  have w3: "update_image_keywords ex_sv {''whale''}
        (snd (process_keywords ex_sv (all_keywords (collect ex_sv ex_files)))) = {''whale''}"
    by code_simp
  from write_iff_changed [OF c1 c2] c3
  have c4: "''d/c.jpg'' \<in> set (map fst (fst (update_metadata ex_sv (fst (process_directory ex_sv ex_files)))))"
    by blast
  from write_iff_changed [OF w1 w2] w3
  have w4: "''d/w.jpg'' \<notin> set (map fst (fst (update_metadata ex_sv (fst (process_directory ex_sv ex_files)))))"
    by blast
  from c1 c2 c3 c4 w1 w2 w3 w4 show ?thesis by blast
qed

text \<open>
  C4: if the extraction of the file \<open>f\<close> raises, the per-file map and the list of all
  keywords are those of the run without \<open>f\<close>, \<open>f\<close> is no key of the per-file map, one
  line naming \<open>f\<close> and the exception is printed between the lines of the files before
  and after it, and the files to rewrite are those of the run without \<open>f\<close>.
\<close>

theorem extraction_failure_skips:
  assumes fail: "extract_keywords sv f = Inl e"
  shows "file_keywords (collect sv (pre @ f # post)) = file_keywords (collect sv (pre @ post))
     \<and> all_keywords (collect sv (pre @ f # post)) = all_keywords (collect sv (pre @ post))
     \<and> f \<notin> fst ` set (file_keywords (collect sv (pre @ f # post)))
     \<and> printed (collect sv (pre @ f # post)) =
         printed (collect sv pre) @ [''Error processing '' @ f @ '': '' @ str_exn e]
           @ printed (collect sv post)
     \<and> fst (process_directory sv (pre @ f # post)) = fst (process_directory sv (pre @ post))"
proof -
  let ?line = "''Error processing '' @ f @ '': '' @ str_exn e"
  define s1 where "s1 = collect sv pre"
  have step: "collect_step sv f s1 = s1\<lparr>printed := printed s1 @ [?line]\<rparr>"
    using fail by (rule collect_step_Inl)
  have run: "collect sv (pre @ f # post) = fold (collect_step sv) post (collect_step sv f s1)"
    by (simp add: collect_def s1_def)
  have run': "collect sv (pre @ post) = fold (collect_step sv) post s1"
    by (simp add: collect_def s1_def)
  have data: "file_keywords (collect sv (pre @ f # post)) = file_keywords (collect sv (pre @ post))
      \<and> all_keywords (collect sv (pre @ f # post)) = all_keywords (collect sv (pre @ post))"
    unfolding run run' by (rule fold_collect_data) (simp_all add: step)
  have notin: "f \<notin> fst ` set (file_keywords (collect sv (pre @ f # post)))"
    using collect_keys [of f sv "pre @ f # post"] fail by auto
  have "printed (collect sv (pre @ f # post)) = printed (collect_step sv f s1) @ printed (collect sv post)"
    unfolding run by (rule fold_collect_printed)
  moreover have "printed (collect_step sv f s1) = printed (collect sv pre) @ [?line]"
    unfolding step by (simp add: s1_def)
  ultimately have out: "printed (collect sv (pre @ f # post)) =
      printed (collect sv pre) @ [?line] @ printed (collect sv post)"
    by (simp only: append_assoc)
  have "fst (process_directory sv (pre @ f # post)) = fst (process_directory sv (pre @ post))"
    using data by (simp add: process_directory_def Let_def)
  with data notin out show ?thesis by blast
qed

theorem extraction_failure_skips_witness:
  "extract_keywords ex_sv ''d/notes.txt''
     = Inl (ExifToolError ''execute returned a non-zero exit status: 1'')
   \<and> file_keywords (collect ex_sv ex_files)
       = [(''d/a.jpg'', {''cats'', ''dog''}), (''d/b.jpg'', {''cat''}),
          (''d/c.jpg'', {''dogs'', ''puppy''}), (''d/w.jpg'', {''whale''})]
   \<and> all_keywords (collect ex_sv ex_files)
       = [''cats'', ''dog'', ''cat'', ''dogs'', ''puppy'', ''whale'']
   \<and> printed (collect ex_sv ex_files)
       = [''Error processing d/notes.txt: execute returned a non-zero exit status: 1'']"
proof -
  let ?e = "ExifToolError ''execute returned a non-zero exit status: 1''"
  have fail: "extract_keywords ex_sv ''d/notes.txt'' = Inl ?e" by code_simp
  have files: "ex_files = [''d/a.jpg'', ''d/b.jpg''] @ ''d/notes.txt'' # [''d/c.jpg'', ''d/w.jpg'']"
    by (simp add: ex_files_def)
  note th = extraction_failure_skips [OF fail, of "[''d/a.jpg'', ''d/b.jpg'']" "[''d/c.jpg'', ''d/w.jpg'']"]
  have fk: "file_keywords (collect ex_sv ([''d/a.jpg'', ''d/b.jpg''] @ [''d/c.jpg'', ''d/w.jpg'']))
       = [(''d/a.jpg'', {''cats'', ''dog''}), (''d/b.jpg'', {''cat''}),
          (''d/c.jpg'', {''dogs'', ''puppy''}), (''d/w.jpg'', {''whale''})]"
    by code_simp
  have ak: "all_keywords (collect ex_sv ([''d/a.jpg'', ''d/b.jpg''] @ [''d/c.jpg'', ''d/w.jpg'']))
       = [''cats'', ''dog'', ''cat'', ''dogs'', ''puppy'', ''whale'']"
    by code_simp
  have p1: "printed (collect ex_sv [''d/a.jpg'', ''d/b.jpg'']) = []" by code_simp
  have p2: "printed (collect ex_sv [''d/c.jpg'', ''d/w.jpg'']) = []" by code_simp
  from th fk ak p1 p2 fail show ?thesis unfolding files by simp
qed

text \<open>
  C5: where the morphology service returns a singular form, \<open>handle_plurals\<close> returns
  it; where it returns \<^verbatim>\<open>False\<close> (or an empty string, which Python treats alike),
  \<open>handle_plurals\<close> returns the word unchanged.
\<close>

theorem handle_plurals_spec:
  "(\<forall>s. singular_noun sv w = Some s \<and> s \<noteq> [] \<longrightarrow> handle_plurals sv w = s)
   \<and> (singular_noun sv w = None \<or> singular_noun sv w = Some [] \<longrightarrow> handle_plurals sv w = w)"
  by (auto simp: handle_plurals_def)

theorem handle_plurals_spec_witness:
  "singular_noun ex_sv ''cats'' = Some ''cat'' \<and> handle_plurals ex_sv ''cats'' = ''cat''
   \<and> singular_noun ex_sv ''whale'' = None \<and> handle_plurals ex_sv ''whale'' = ''whale''"
proof -
  have 1: "singular_noun ex_sv ''cats'' = Some ''cat''" by code_simp
  have 2: "singular_noun ex_sv ''whale'' = None" by code_simp
  from handle_plurals_spec [of ex_sv "''cats''"] 1 have "handle_plurals ex_sv ''cats'' = ''cat''"
    by simp
  moreover from handle_plurals_spec [of ex_sv "''whale''"] 2
  have "handle_plurals ex_sv ''whale'' = ''whale''" by simp
  ultimately show ?thesis using 1 2 by simp
qed

text \<open>
  C6, as stated: for every file \<open>extract_keywords\<close> returns a set. This fails for a
  file with a keyword that is a number other than zero: the comprehension keeps the
  number, which has no \<^verbatim>\<open>lower\<close>, and the call raises.
\<close>

theorem number_keyword_raises:
  "get_metadata ex_sv ''d/n.jpg'' = Inr [[''Keywords'' \<mapsto> Scalar (Num 2020)]]
   \<and> extract_keywords ex_sv ''d/n.jpg'' = Inl AttributeError"
proof
  show "get_metadata ex_sv ''d/n.jpg'' = Inr [[''Keywords'' \<mapsto> Scalar (Num 2020)]]"
    by (simp add: ex_sv_def ex_get_metadata_def)
  show "extract_keywords ex_sv ''d/n.jpg'' = Inl AttributeError" by code_simp
qed

text \<open>
  C6, amended: for a file whose metadata is read, let the merged values be all elements
  of the list-valued tracked fields and the scalar values of the others. If every
  merged value that is not empty is a text, \<open>extract_keywords\<close> returns the set of the
  lowercased non-empty texts among them; if some merged value that is not empty is not
  a text, it raises \<^verbatim>\<open>AttributeError\<close>. Where lowercasing is idempotent and keeps a
  non-empty text non-empty, as \<^verbatim>\<open>str.lower\<close> does, every keyword returned is lowercase
  and not empty.
\<close>

theorem extract_keywords_spec:
  assumes "get_metadata sv p = Inr (md # rest)"
  shows "((\<forall>a\<in>merged_values md. truthy a \<longrightarrow> is_Str a) \<longrightarrow>
            extract_keywords sv p = Inr (lower sv ` {s. s \<noteq> [] \<and> Str s \<in> merged_values md}))
     \<and> ((\<exists>a\<in>merged_values md. truthy a \<and> \<not> is_Str a) \<longrightarrow>
            extract_keywords sv p = Inl AttributeError)
     \<and> ((\<forall>s. lower sv (lower sv s) = lower sv s) \<and> (\<forall>s. s \<noteq> [] \<longrightarrow> lower sv s \<noteq> []) \<longrightarrow>
            (\<forall>S. extract_keywords sv p = Inr S \<longrightarrow> (\<forall>k\<in>S. lower sv k = k \<and> k \<noteq> [])))"
proof (intro conjI impI allI)
  assume "\<forall>a\<in>merged_values md. truthy a \<longrightarrow> is_Str a"
  then show "extract_keywords sv p = Inr (lower sv ` {s. s \<noteq> [] \<and> Str s \<in> merged_values md})"
    by (simp add: extract_keywords_read [OF assms])
next
  assume "\<exists>a\<in>merged_values md. truthy a \<and> \<not> is_Str a"
  then have "\<not> (\<forall>a\<in>merged_values md. truthy a \<longrightarrow> is_Str a)" by blast
  then show "extract_keywords sv p = Inl AttributeError"
    by (simp only: extract_keywords_read [OF assms] if_False)
next
  fix S
  assume low: "(\<forall>s. lower sv (lower sv s) = lower sv s) \<and> (\<forall>s. s \<noteq> [] \<longrightarrow> lower sv s \<noteq> [])"
    and ret: "extract_keywords sv p = Inr S"
  from ret have S: "S = lower sv ` {s. s \<noteq> [] \<and> Str s \<in> merged_values md}"
    unfolding extract_keywords_read [OF assms] by (simp split: if_splits)
  show "\<forall>k\<in>S. lower sv k = k \<and> k \<noteq> []"
  proof
    fix k assume "k \<in> S"
    then obtain s where "s \<noteq> []" and "k = lower sv s" unfolding S by blast
    with low show "lower sv k = k \<and> k \<noteq> []" by simp
  qed
qed

theorem extract_keywords_spec_witness:
  "get_metadata ex_sv ''d/a.jpg'' =
     Inr ([''XMP:Subject'' \<mapsto> ListV [Str ''Cats'', Str ''dog''],
           ''Keywords'' \<mapsto> Scalar (Str ''dog'')] # [])
   \<and> merged_values [''XMP:Subject'' \<mapsto> ListV [Str ''Cats'', Str ''dog''],
                     ''Keywords'' \<mapsto> Scalar (Str ''dog'')]
       = {Str ''Cats'', Str ''dog''}
   \<and> lower ex_sv ''Cats'' = ''cats''
   \<and> extract_keywords ex_sv ''d/a.jpg'' = Inr {''cats'', ''dog''}
   \<and> lower ex_sv ''cats'' = ''cats'' \<and> ''cats'' \<noteq> []
   \<and> get_metadata ex_sv ''d/n.jpg'' = Inr ([''Keywords'' \<mapsto> Scalar (Num 2020)] # [])
   \<and> merged_values [''Keywords'' \<mapsto> Scalar (Num 2020)] = {Num 2020}
   \<and> extract_keywords ex_sv ''d/n.jpg'' = Inl AttributeError"
proof -
  define md :: metadata where
    "md = [''XMP:Subject'' \<mapsto> ListV [Str ''Cats'', Str ''dog''],
           ''Keywords'' \<mapsto> Scalar (Str ''dog'')]"
  define nd :: metadata where "nd = [''Keywords'' \<mapsto> Scalar (Num 2020)]"
  have gm: "get_metadata ex_sv ''d/a.jpg'' = Inr (md # [])"
    by (simp add: ex_sv_def ex_get_metadata_def md_def)
  have mv: "merged_values md = {Str ''Cats'', Str ''dog''}"
    by (simp add: md_def merged_values_def METADATA_FIELDS_def insert_commute)
  have texts: "\<forall>a\<in>merged_values md. truthy a \<longrightarrow> is_Str a"
    unfolding mv by simp
  have "{s. s \<noteq> [] \<and> Str s \<in> merged_values md} = {''Cats'', ''dog''}"
    unfolding mv by (simp only: insert_iff empty_iff atom.inject atom.distinct) blast
  moreover have "lower ex_sv ` {''Cats'', ''dog''} = {''cats'', ''dog''}" by code_simp
  ultimately have img: "lower ex_sv ` {s. s \<noteq> [] \<and> Str s \<in> merged_values md} = {''cats'', ''dog''}"
    by (simp only:)
  have cats: "lower ex_sv ''Cats'' = ''cats''" by code_simp
  note th = extract_keywords_spec [OF gm]
  from th have "(\<forall>a\<in>merged_values md. truthy a \<longrightarrow> is_Str a) \<longrightarrow>
      extract_keywords ex_sv ''d/a.jpg'' = Inr (lower ex_sv ` {s. s \<noteq> [] \<and> Str s \<in> merged_values md})"
    by (rule conjunct1)
  with texts have ex: "extract_keywords ex_sv ''d/a.jpg'' = Inr {''cats'', ''dog''}"
    by (simp only: img)
  have idem: "\<forall>s. lower ex_sv (lower ex_sv s) = lower ex_sv s"
    by (simp add: ex_sv_def ascii_lower_idem)
  have keep: "\<forall>s. s \<noteq> [] \<longrightarrow> lower ex_sv s \<noteq> []"
    by (simp add: ex_sv_def ascii_lower_Nil_iff)
  from th idem keep ex have "\<forall>k\<in>{''cats'', ''dog''}. lower ex_sv k = k \<and> k \<noteq> []" by blast
  then have low: "lower ex_sv ''cats'' = ''cats'' \<and> ''cats'' \<noteq> []"
    by (rule bspec) (rule insertI1)
  have gn: "get_metadata ex_sv ''d/n.jpg'' = Inr (nd # [])"
    by (simp add: ex_sv_def ex_get_metadata_def nd_def)
  have nv: "merged_values nd = {Num 2020}"
    by (simp add: nd_def merged_values_def METADATA_FIELDS_def)
  have number: "\<exists>a\<in>merged_values nd. truthy a \<and> \<not> is_Str a"
    unfolding nv by simp
  from extract_keywords_spec [OF gn] number
  have raise: "extract_keywords ex_sv ''d/n.jpg'' = Inl AttributeError" by blast
  from gm mv cats ex low gn nv raise show ?thesis unfolding md_def nd_def by blast
qed

text \<open>
  C7: every write request of a run carries the four tracked fields, \<open>MWG:Keywords\<close>
  with a duplicate-free list of exactly the canonicalised keywords of the file and the
  other three with the empty list, and the parameters \<^verbatim>\<open>-P -overwrite_original\<close>.
\<close>

theorem write_request_fields:
  assumes en: "enumerates (iter_order sv)"
    and req: "(p, tags, params) \<in> set (fst (update_metadata sv (fst (process_directory sv files))))"
  shows "\<exists>keywords keyword_list.
      p \<in> set files \<and> extract_keywords sv p = Inr keywords
      \<and> set keyword_list = update_image_keywords sv keywords
            (snd (process_keywords sv (all_keywords (collect sv files))))
      \<and> distinct keyword_list
      \<and> tags = [(''XMP:Subject'', []), (''IPTC:Keywords'', []),
                 (''MWG:Keywords'', keyword_list), (''Keywords'', [])]
      \<and> params = [''-P'', ''-overwrite_original'']"
proof -
  define sg where "sg = snd (process_keywords sv (all_keywords (collect sv files)))"
  from req obtain item where item: "item \<in> set (fst (process_directory sv files))"
    and r: "(p, tags, params) = write_request sv item"
    unfolding update_metadata_requests by auto
  from item obtain orig where orig: "orig \<in> set (file_keywords (collect sv files))"
    and it: "item = (fst orig, update_image_keywords sv (snd orig) sg)"
    unfolding process_directory_fst sg_def by auto
  from r it have p: "p = fst orig"
    and tags: "tags = [(''XMP:Subject'', []), (''IPTC:Keywords'', []),
        (''MWG:Keywords'', iter_order sv (update_image_keywords sv (snd orig) sg)), (''Keywords'', [])]"
    and params: "params = [''-P'', ''-overwrite_original'']"
    by (simp_all add: write_request_def Let_def)
  from orig p have "map_of (file_keywords (collect sv files)) p = Some (snd orig)"
    using collect_distinct [of sv files] by simp
  then have src: "p \<in> set files \<and> extract_keywords sv p = Inr (snd orig)"
    by (simp only: collect_map_of_iff)
  then have "finite (snd orig)" by (blast intro: extract_keywords_finite)
  then have "finite (update_image_keywords sv (snd orig) sg)"
    by (rule update_image_keywords_finite)
  with en have "set (iter_order sv (update_image_keywords sv (snd orig) sg))
        = update_image_keywords sv (snd orig) sg
      \<and> distinct (iter_order sv (update_image_keywords sv (snd orig) sg))"
    by (simp add: enumerates_def)
  with src tags params show ?thesis unfolding sg_def by blast
qed

theorem write_request_fields_witness:
  "enumerates (iter_order ex_sv)
   \<and> (''d/c.jpg'',
       [(''XMP:Subject'', []), (''IPTC:Keywords'', []),
        (''MWG:Keywords'', [''dog'']), (''Keywords'', [])],
       [''-P'', ''-overwrite_original''])
      \<in> set (fst (update_metadata ex_sv (fst (process_directory ex_sv ex_files))))
   \<and> extract_keywords ex_sv ''d/c.jpg'' = Inr {''dogs'', ''puppy''}
   \<and> set [''dog''] = update_image_keywords ex_sv {''dogs'', ''puppy''}
        (snd (process_keywords ex_sv (all_keywords (collect ex_sv ex_files))))"
proof -
  have req: "(''d/c.jpg'',
       [(''XMP:Subject'', []), (''IPTC:Keywords'', []),
        (''MWG:Keywords'', [''dog'']), (''Keywords'', [])],
       [''-P'', ''-overwrite_original''])
      \<in> set (fst (update_metadata ex_sv (fst (process_directory ex_sv ex_files))))"
    by code_simp
  have ex: "extract_keywords ex_sv ''d/c.jpg'' = Inr {''dogs'', ''puppy''}" by code_simp
  from write_request_fields [OF ex_enumerates req] ex
  have "set [''dog''] = update_image_keywords ex_sv {''dogs'', ''puppy''}
        (snd (process_keywords ex_sv (all_keywords (collect ex_sv ex_files))))"
    by auto
  with ex_enumerates req ex show ?thesis by blast
qed

text \<open>
  C8, as stated: a keyword whose synonym lookup returns nothing is mapped to itself.
  This fails when the keyword is itself returned as a synonym of another keyword: the
  lookup of \<open>domestic dog\<close> returns nothing, the lookup of \<open>dog\<close> returns
  \<open>domestic dog\<close>, and the group of \<open>dog\<close> maps \<open>domestic dog\<close> to \<open>dog\<close>.
\<close>

theorem no_synonyms_not_singleton:
  "get_synonyms ex_sv ''domestic dog'' = {}
   \<and> ''domestic dog'' \<in> set (keys (fst (process_keywords ex_sv [''dog'', ''domestic dog''])))
   \<and> snd (process_keywords ex_sv [''dog'', ''domestic dog'']) ''domestic dog'' = Some ''dog''"
  by code_simp

text \<open>
  C8, amended: a key of the frequency table that is isolated (none of its synonyms is
  another key, and it is a synonym of no other key) forms a group of its own and is
  mapped to itself; and a file all of whose keywords are isolated keys that lowercasing
  and singularisation leave unchanged keeps its keyword set and is not added to the
  files to rewrite.
\<close>

theorem isolated_keyword:
  assumes en: "enumerates (iter_order sv)"
    and kf: "kf = fst (process_keywords sv corpus)"
    and sg: "sg = snd (process_keywords sv corpus)"
  shows "(\<forall>k\<in>set (keys kf). isolated sv kf k \<longrightarrow> sg k = Some k \<and> set (group_of sv kf k) = {k})
     \<and> ((\<forall>k\<in>keywords. k \<in> set (keys kf) \<and> isolated sv kf k \<and> handle_plurals sv (lower sv k) = k)
          \<longrightarrow> update_image_keywords sv keywords sg = keywords
              \<and> changed_step sv sg (p, keywords) updated = updated)"
proof -
  have sg': "sg = fold (group_step sv kf) (keys kf) Map.empty"
    unfolding sg kf by (rule process_keywords_snd)
  have A: "\<forall>k\<in>set (keys kf). isolated sv kf k \<longrightarrow> sg k = Some k \<and> set (group_of sv kf k) = {k}"
  proof (intro ballI impI conjI)
    fix k assume "k \<in> set (keys kf)" and "isolated sv kf k"
    with en show "sg k = Some k" unfolding sg' by (intro isolated_loop)
  next
    fix k assume "isolated sv kf k"
    with en show "set (group_of sv kf k) = {k}" by (rule isolated_group)
  qed
  have B: "update_image_keywords sv keywords sg = keywords
      \<and> changed_step sv sg (p, keywords) updated = updated"
    if all: "\<forall>k\<in>keywords. k \<in> set (keys kf) \<and> isolated sv kf k \<and> handle_plurals sv (lower sv k) = k"
  proof -
    have "(let singular = handle_plurals sv (lower sv k)
           in case sg singular of Some main_keyword \<Rightarrow> main_keyword | None \<Rightarrow> singular) = k"
      if "k \<in> keywords" for k
      using that all A by (simp add: Let_def)
    then have "update_image_keywords sv keywords sg = keywords"
      unfolding update_image_keywords_def by (simp del: Let_def)
    then show ?thesis by (simp add: changed_step_eq)
  qed
  from A B show ?thesis by blast
qed

theorem isolated_keyword_witness:
  "enumerates (iter_order ex_sv)
   \<and> ''whale'' \<in> set (keys (fst (process_keywords ex_sv (all_keywords (collect ex_sv ex_files)))))
   \<and> isolated ex_sv (fst (process_keywords ex_sv (all_keywords (collect ex_sv ex_files)))) ''whale''
   \<and> handle_plurals ex_sv (lower ex_sv ''whale'') = ''whale''
   \<and> snd (process_keywords ex_sv (all_keywords (collect ex_sv ex_files))) ''whale'' = Some ''whale''
   \<and> update_image_keywords ex_sv {''whale''}
        (snd (process_keywords ex_sv (all_keywords (collect ex_sv ex_files)))) = {''whale''}
   \<and> changed_step ex_sv (snd (process_keywords ex_sv (all_keywords (collect ex_sv ex_files))))
        (''d/w.jpg'', {''whale''}) [] = []"
proof -
  let ?corpus = "all_keywords (collect ex_sv ex_files)"
  have 1: "''whale'' \<in> set (keys (fst (process_keywords ex_sv ?corpus)))" by code_simp
  have 2: "isolated ex_sv (fst (process_keywords ex_sv ?corpus)) ''whale''" by code_simp
  have 3: "handle_plurals ex_sv (lower ex_sv ''whale'') = ''whale''" by code_simp
  note th = isolated_keyword [OF ex_enumerates refl refl, of ?corpus "{''whale''}" "''d/w.jpg''" "[]"]
  from th 1 2 have a: "snd (process_keywords ex_sv ?corpus) ''whale'' = Some ''whale''" by blast
  from th 1 2 3 have b: "update_image_keywords ex_sv {''whale''} (snd (process_keywords ex_sv ?corpus))
      = {''whale''}
    \<and> changed_step ex_sv (snd (process_keywords ex_sv ?corpus)) (''d/w.jpg'', {''whale''}) [] = []"
    by simp
  from ex_enumerates 1 2 3 a b show ?thesis by blast
qed

text \<open>
  C9: every key of the frequency table is a key of the mapping; hence the lookup that
  \<open>update_image_keywords\<close> makes for a keyword of the corpus always succeeds, and so
  does the lookup for every keyword of every collected file.
\<close>

theorem mapping_total:
  "(\<forall>k\<in>set (keys (fst (process_keywords sv corpus))). snd (process_keywords sv corpus) k \<noteq> None)
   \<and> (\<forall>keyword\<in>set corpus.
         snd (process_keywords sv corpus) (handle_plurals sv (lower sv keyword)) \<noteq> None)
   \<and> (enumerates (iter_order sv) \<longrightarrow>
        (\<forall>(p, keywords)\<in>set (file_keywords (collect sv files)). \<forall>keyword\<in>keywords.
           snd (process_keywords sv (all_keywords (collect sv files)))
             (handle_plurals sv (lower sv keyword)) \<noteq> None))"
proof (intro conjI ballI impI)
  fix k assume "k \<in> set (keys (fst (process_keywords sv corpus)))"
  then show "snd (process_keywords sv corpus) k \<noteq> None" by (rule process_keywords_total)
next
  fix keyword assume "keyword \<in> set corpus"
  then show "snd (process_keywords sv corpus) (handle_plurals sv (lower sv keyword)) \<noteq> None"
    by (intro process_keywords_total corpus_in_keys)
next
  fix item assume en: "enumerates (iter_order sv)"
    and item: "item \<in> set (file_keywords (collect sv files))"
  show "case item of (p, keywords) \<Rightarrow> \<forall>keyword\<in>keywords.
           snd (process_keywords sv (all_keywords (collect sv files)))
             (handle_plurals sv (lower sv keyword)) \<noteq> None"
  proof (cases item)
    case (Pair p kws)
    with en item have sub: "kws \<subseteq> set (all_keywords (collect sv files))"
      by (intro collect_corpus) simp_all
    have "\<forall>keyword\<in>kws.
           snd (process_keywords sv (all_keywords (collect sv files)))
             (handle_plurals sv (lower sv keyword)) \<noteq> None"
    proof
      fix keyword assume "keyword \<in> kws"
      with sub have "keyword \<in> set (all_keywords (collect sv files))" by blast
      then show "snd (process_keywords sv (all_keywords (collect sv files)))
             (handle_plurals sv (lower sv keyword)) \<noteq> None"
        by (intro process_keywords_total corpus_in_keys)
    qed
    then show ?thesis unfolding Pair by simp
  qed
qed

theorem mapping_total_witness:
  "''cat'' \<in> set (keys (fst (process_keywords ex_sv [''cats'', ''dog''])))
   \<and> snd (process_keywords ex_sv [''cats'', ''dog'']) ''cat'' \<noteq> None
   \<and> ''cats'' \<in> set [''cats'', ''dog'']
   \<and> snd (process_keywords ex_sv [''cats'', ''dog'']) (handle_plurals ex_sv (lower ex_sv ''cats'')) \<noteq> None
   \<and> enumerates (iter_order ex_sv)
   \<and> (''d/c.jpg'', {''dogs'', ''puppy''}) \<in> set (file_keywords (collect ex_sv ex_files))
   \<and> ''dogs'' \<in> {''dogs'', ''puppy''}
   \<and> snd (process_keywords ex_sv (all_keywords (collect ex_sv ex_files)))
        (handle_plurals ex_sv (lower ex_sv ''dogs'')) \<noteq> None"
proof -
  have 1: "''cat'' \<in> set (keys (fst (process_keywords ex_sv [''cats'', ''dog''])))" by code_simp
  have 2: "''cats'' \<in> set [''cats'', ''dog'']" by simp
  have 3: "(''d/c.jpg'', {''dogs'', ''puppy''}) \<in> set (file_keywords (collect ex_sv ex_files))"
    by code_simp
  have 4: "''dogs'' \<in> {''dogs'', ''puppy''}" by simp
  note th = mapping_total [of ex_sv "[''cats'', ''dog'']" ex_files]
  from th 1 have a: "snd (process_keywords ex_sv [''cats'', ''dog'']) ''cat'' \<noteq> None" by blast
  from th 2 have b: "snd (process_keywords ex_sv [''cats'', ''dog''])
      (handle_plurals ex_sv (lower ex_sv ''cats'')) \<noteq> None" by blast
  from th ex_enumerates have "\<forall>(p, keywords)\<in>set (file_keywords (collect ex_sv ex_files)).
      \<forall>keyword\<in>keywords.
        snd (process_keywords ex_sv (all_keywords (collect ex_sv ex_files)))
          (handle_plurals ex_sv (lower ex_sv keyword)) \<noteq> None" by blast
  with 3 4 have c: "snd (process_keywords ex_sv (all_keywords (collect ex_sv ex_files)))
        (handle_plurals ex_sv (lower ex_sv ''dogs'')) \<noteq> None" by blast
  from 1 a 2 b ex_enumerates 3 4 c show ?thesis by blast
qed

text \<open>
  C10: for a finite keyword set and any mapping, \<open>update_image_keywords\<close> returns a
  set with at most as many elements.
\<close>

theorem update_image_keywords_card:
  "finite keywords \<Longrightarrow> card (update_image_keywords sv keywords synonym_groups) \<le> card keywords"
  unfolding update_image_keywords_def by (rule card_image_le)

theorem update_image_keywords_card_witness:
  "finite {''cats'', ''cat'', ''whale''}
   \<and> card (update_image_keywords ex_sv {''cats'', ''cat'', ''whale''} Map.empty)
       \<le> card {''cats'', ''cat'', ''whale''}"
proof -
  have fin: "finite {''cats'', ''cat'', ''whale''}" by simp
  from update_image_keywords_card [OF fin] fin show ?thesis by blast
qed

end
